theory Spec2Isabelle
  imports Complex_Main "HOL-Library.Multiset" "HOL-Library.Log_Nat"
begin

section \<open>Numbers\<close>

text \<open>
  Monetary values reach the program as Python \<open>Decimal\<close>s (the RPC proxy parses every JSON
  number into a \<open>Decimal\<close>); they are modelled as rationals. Sums and differences of
  \<open>Decimal\<close>s are exact as long as the result has at most 28 significant digits, which
  holds for all Bitcoin amounts, so \<open>+\<close> and \<open>-\<close> are the exact operations. A \<open>Decimal\<close>
  quotient is rounded to 28 significant digits (the default context), and a Python float
  literal or float operation is rounded to binary64; both roundings are modelled by
  \<open>round_sig\<close>. A comparison between a \<open>Decimal\<close> and a float compares the two exact
  values, so it is the order of the rationals.
\<close>

definition round_half_even :: "int \<Rightarrow> int \<Rightarrow> int" where
  "round_half_even n d =
     (let f = n div d; r = n mod d
      in if 2 * r < d then f
         else if d < 2 * r then f + 1
         else if even f then f else f + 1)"

function ndigits :: "int \<Rightarrow> int \<Rightarrow> int" where
  "ndigits b n = (if 1 < b \<and> 0 < n then ndigits b (n div b) + 1 else 0)"
  by pat_completeness auto
termination
  by (relation "measure (\<lambda>(b, n). nat n)") (auto intro: int_div_less_self)

declare ndigits.simps [simp del]

definition round_sig_frac :: "int \<Rightarrow> nat \<Rightarrow> int \<Rightarrow> int \<Rightarrow> rat" where
  \<comment> \<open>\<open>n / d\<close> for positive \<open>n\<close> and \<open>d\<close>, rounded half-even to \<open>p\<close> significant digits in base \<open>b\<close>\<close>
  "round_sig_frac b p n d =
     (let s0 = int p + ndigits b d - ndigits b n;
          s = (if (if 0 \<le> s0 then d * b ^ p \<le> n * b ^ nat s0
                   else d * b ^ nat (- s0) * b ^ p \<le> n)
               then s0 - 1 else s0);
          c = (if 0 \<le> s then round_half_even (n * b ^ nat s) d
               else round_half_even n (d * b ^ nat (- s)))
      in if 0 \<le> s then of_int c / of_int (b ^ nat s)
         else of_int (c * b ^ nat (- s)))"

definition round_sig :: "int \<Rightarrow> nat \<Rightarrow> rat \<Rightarrow> rat" where
  "round_sig b p q =
     (if q = 0 then 0
      else sgn q * (case quotient_of \<bar>q\<bar> of (n, d) \<Rightarrow> round_sig_frac b p n d))"

definition fl :: "rat \<Rightarrow> rat" where
  \<comment> \<open>the binary64 value nearest to a rational (exponent range not modelled)\<close>
  "fl q = round_sig 2 53 q"

definition decimal_div :: "rat \<Rightarrow> rat \<Rightarrow> rat" where
  \<comment> \<open>\<open>Decimal / int\<close> with a non-zero divisor, in the default context\<close>
  "decimal_div x y = round_sig 10 28 (x / y)"

section \<open>Constants\<close>

definition MIN_NUM_INPUTS :: nat where "MIN_NUM_INPUTS = 3"
definition MIN_NUM_OUTPUTS :: nat where "MIN_NUM_OUTPUTS = 3"

definition MIN_JM_FEE :: rat where "MIN_JM_FEE = fl (1 / 1000000)"
definition MAX_JM_FEE :: rat where "MAX_JM_FEE = fl (3 / 100)"
definition MIN_MIX_VALUE :: rat where "MIN_MIX_VALUE = 1 / 100"

section \<open>Errors\<close>

datatype unpairable_reason =
    Rejected string
  | Taker_fees_dont_add_up
  | Unpairable_change_values "rat list"

datatype error =
    Unpairable unpairable_reason
  | AssertionError
  | IndexError
  | ValueError
  | ZeroDivisionError
  | DivisionByZero
  | InvalidOperation

section \<open>Transactions (\<open>btccommon.Tx\<close>)\<close>

type_synonym address = string

record vout =
  vout_value :: rat
  vout_addresses :: "address list"

record vin =
  vin_txid :: string
  vin_vout :: nat

record tx =
  txid :: string
  vin :: "vin list"
  vout :: "vout list"

text \<open>
  \<open>Tx.get_vout_being_spent_by_vin\<close> asks the Bitcoin node for the output an input spends.
  The node is outside the program: the lookup is a parameter \<open>chain\<close> of every function
  that needs it.
\<close>

type_synonym blockchain = "vin \<Rightarrow> vout"

definition vout_values :: "('a tx_scheme) \<Rightarrow> rat list" where
  "vout_values t = map vout_value (vout t)"

definition vin_values :: "blockchain \<Rightarrow> ('a tx_scheme) \<Rightarrow> rat list" where
  "vin_values chain t = map (\<lambda>i. vout_value (chain i)) (vin t)"

section \<open>The mix value (\<open>get_value_mixed_from_values\<close>)\<close>

text \<open>
  \<open>Counter(xs).most_common(1)\<close>: the keys of a \<open>Counter\<close> are kept in the order of their
  first occurrence, and \<open>most_common(1)\<close> is \<open>max\<close> over the items by count, which
  keeps the first of several maximal items. On an empty counter the list is empty.
\<close>

definition counter_keys :: "'a list \<Rightarrow> 'a list" where
  "counter_keys xs = rev (remdups (rev xs))"

definition most_common_1 :: "'a list \<Rightarrow> ('a \<times> nat) option" where
  "most_common_1 xs =
     (case counter_keys xs of
        [] \<Rightarrow> None
      | k # ks \<Rightarrow>
          Some (fold (\<lambda>k' (best, c). if c < count_list xs k' then (k', count_list xs k') else (best, c))
                  ks (k, count_list xs k)))"

text \<open>
  The result \<open>(None, None)\<close> of the source is \<open>None\<close> here, and
  \<open>(common_output_value, common_output_value_count)\<close> is \<open>Some\<close> of the pair.
  \<open>most_common(1)[0]\<close> on an empty counter raises \<open>IndexError\<close>.
\<close>

definition get_value_mixed_from_values :: "rat list \<Rightarrow> rat list \<Rightarrow> error + (rat \<times> nat) option" where
  "get_value_mixed_from_values in_values out_values =
     (case most_common_1 out_values of
        None \<Rightarrow> Inl IndexError
      | Some (common_output_value, common_output_value_count) \<Rightarrow>
          let output_values_counter = filter (\<lambda>v. v \<noteq> common_output_value) out_values
          in if common_output_value_count \<le> 2 then Inr None
             else
               (case most_common_1 output_values_counter of
                  None \<Rightarrow> Inr (Some (common_output_value, common_output_value_count))
                | Some (v2, v2_count) \<Rightarrow>
                    if v2_count = common_output_value_count then Inr None
                    else Inr (Some (common_output_value, common_output_value_count))))"

definition get_value_mixed :: "blockchain \<Rightarrow> ('a tx_scheme) \<Rightarrow> error + (rat \<times> nat) option" where
  "get_value_mixed chain t = get_value_mixed_from_values (vin_values chain t) (vout_values t)"

section \<open>The classifier (\<open>check_potential_joinmarket_tx\<close>)\<close>

definition check_potential_joinmarket_tx :: "blockchain \<Rightarrow> ('a tx_scheme) \<Rightarrow> error + (bool \<times> string)" where
  "check_potential_joinmarket_tx chain t =
     (let num_inputs = length (vin t);
          num_outputs = length (vout t)
      in if num_outputs \<le> MIN_NUM_OUTPUTS then Inr (False, ''MIN_NUM_OUTPUTS'')
         else if num_inputs \<le> MIN_NUM_INPUTS then Inr (False, ''MIN_NUM_INPUTS'')
         else
           (case get_value_mixed chain t of
              Inl e \<Rightarrow> Inl e
            | Inr None \<Rightarrow> Inr (False, ''no value_mixed'')
            | Inr (Some (value_mixed, cnt)) \<Rightarrow>
                if value_mixed < MIN_MIX_VALUE then Inr (False, ''MIN_MIX_VALUE'')
                else if \<not> (2 * int cnt - 1 \<le> int num_outputs \<and> int num_outputs \<le> 2 * int cnt)
                  then Inr (False, ''UNUSUAL NUMBER OF OUTPUTS'')
                else if num_inputs > 25 then Inr (False, ''TOO MANY INPUTS'')
                else Inr (True, [])))"

section \<open>The pairing algorithm (\<open>pair_up_inout_values\<close>)\<close>

subsection \<open>The order of the candidates (\<open>gen_bucket_size_dist_pairs\<close>)\<close>

text \<open>
  \<open>numpy.argsort\<close> is a library routine: it returns the indices that sort the flattened
  array, and leaves the order of equal entries open (the default sort is not stable). It is
  a parameter \<open>argsort\<close> of the model; \<open>argsort_contract\<close> is its documented contract, and
  \<open>argsort_stable\<close> is one routine that meets it.
\<close>

definition argsort_contract :: "(rat list \<Rightarrow> nat list) \<Rightarrow> rat list \<Rightarrow> bool" where
  "argsort_contract argsort d \<longleftrightarrow>
     mset (argsort d) = mset [0..<length d] \<and> sorted (map ((!) d) (argsort d))"

definition argsort_stable :: "rat list \<Rightarrow> nat list" where
  "argsort_stable d = map snd (sort_key fst (zip d [0..<length d]))"

definition DIST_PENALTY_FACTOR :: rat where "DIST_PENALTY_FACTOR = fl (1 / 10)"

definition penalty :: "nat \<Rightarrow> nat \<Rightarrow> rat" where
  \<comment> \<open>the entry \<open>d[bucket_idx][dist_idx]\<close> of \<open>ii[0]**2 + DIST_PENALTY_FACTOR * ii[1]**2\<close>\<close>
  "penalty bucket_idx dist_idx =
     fl (of_nat (bucket_idx ^ 2) + fl (DIST_PENALTY_FACTOR * of_nat (dist_idx ^ 2)))"

definition penalty_matrix :: "nat \<Rightarrow> nat \<Rightarrow> rat list" where
  \<comment> \<open>the array \<open>d\<close>, flattened row by row as \<open>np.argsort(d, axis=None)\<close> reads it\<close>
  "penalty_matrix num_bucket_sizes num_dists =
     concat (map (\<lambda>i. map (\<lambda>j. penalty i j) [0..<num_dists]) [0..<num_bucket_sizes])"

definition gen_idx_pairs :: "(rat list \<Rightarrow> nat list) \<Rightarrow> nat \<Rightarrow> nat \<Rightarrow> (nat \<times> nat) list" where
  \<comment> \<open>\<open>zip(*divmod(np.argsort(d, axis=None), d.shape[1]))\<close>\<close>
  "gen_idx_pairs argsort num_bucket_sizes num_dists =
     map (\<lambda>k. (k div num_dists, k mod num_dists))
       (argsort (penalty_matrix num_bucket_sizes num_dists))"

definition gen_bucket_size_dist_pairs ::
  "(rat list \<Rightarrow> nat list) \<Rightarrow> nat list \<Rightarrow> rat list \<Rightarrow> (nat \<times> rat) list" where
  "gen_bucket_size_dist_pairs argsort bucket_sizes dists =
     map (\<lambda>(bucket_idx, dist_idx). (bucket_sizes ! bucket_idx, dists ! dist_idx))
       (gen_idx_pairs argsort (length bucket_sizes) (length dists))"

definition dists :: "rat list" where
  \<comment> \<open>\<open>MIN_JM_FEE * 2**np.arange(4, 40)\<close>, cut at \<open>MAX_JM_FEE\<close>\<close>
  "dists = filter (\<lambda>d. d < MAX_JM_FEE) (map (\<lambda>k. fl (MIN_JM_FEE * 2 ^ k)) [4..<40])"

subsection \<open>The search for one maker\<close>

fun combinations :: "'a list \<Rightarrow> nat \<Rightarrow> 'a list list" where
  "combinations xs 0 = [[]]"
| "combinations [] (Suc r) = []"
| "combinations (x # xs) (Suc r) = map ((#) x) (combinations xs r) @ combinations xs (Suc r)"

fun first_match :: "('a \<Rightarrow> 'b option) \<Rightarrow> 'a list \<Rightarrow> 'b option" where
  "first_match f [] = None"
| "first_match f (x # xs) = (case f x of Some y \<Rightarrow> Some y | None \<Rightarrow> first_match f xs)"

definition min_dist_change :: "rat \<Rightarrow> rat \<Rightarrow> rat \<Rightarrow> rat list \<Rightarrow> rat \<times> int" where
  \<comment> \<open>the loop over \<open>enumerate(change_values)\<close>; the result is \<open>(min_dist, min_dist_cidx)\<close>\<close>
  "min_dist_change value_mixed sum_bucket_input cur_max_jmfee change_values =
     fold (\<lambda>(cidx, change_value) (min_dist, min_dist_cidx).
             let dist = change_value + value_mixed - sum_bucket_input
             in if MIN_JM_FEE < dist \<and> dist < min_dist then (dist, int cidx)
                else (min_dist, min_dist_cidx))
       (enumerate 0 change_values) (cur_max_jmfee, - 1)"

definition try_bucket :: "rat \<Rightarrow> rat \<Rightarrow> rat list \<Rightarrow> rat list \<Rightarrow> nat list \<Rightarrow> (nat list \<times> nat) option" where
  "try_bucket value_mixed cur_max_jmfee in_values change_values iidxs =
     (let sum_bucket_input = sum_list (map ((!) in_values) iidxs);
          (min_dist, min_dist_cidx) =
             min_dist_change value_mixed sum_bucket_input cur_max_jmfee change_values
      in if 0 \<le> min_dist_cidx then Some (iidxs, nat min_dist_cidx) else None)"

definition find_new_pair ::
  "rat \<Rightarrow> (nat \<times> rat) list \<Rightarrow> rat list \<Rightarrow> rat list \<Rightarrow> (nat list \<times> nat) option" where
  \<comment> \<open>the two nested \<open>for\<close> loops, up to the first bucket that has a matching change value\<close>
  "find_new_pair value_mixed cands in_values change_values =
     first_match (\<lambda>(bucket_size, cur_max_jmfee).
         first_match (try_bucket value_mixed cur_max_jmfee in_values change_values)
           (combinations [0..<length in_values] bucket_size))
       cands"

definition remove_inputs :: "nat list \<Rightarrow> rat list \<Rightarrow> rat list \<times> rat list" where
  \<comment> \<open>the loop over \<open>reversed(iidxs)\<close>; the result is \<open>(cur_inputs, in_values)\<close>\<close>
  "remove_inputs iidxs in_values =
     fold (\<lambda>iidx (cur_inputs, in_values).
             (cur_inputs @ [in_values ! iidx], take iidx in_values @ drop (iidx + 1) in_values))
       (rev iidxs) ([], in_values)"

subsection \<open>The loop over the makers\<close>

text \<open>
  The state of the \<open>while\<close> loop is the tuple
  \<open>(in_values, change_values, mix_values, pairs, num_pairs_left)\<close>. A pair is a list
  \<open>[inputs, outputs]\<close> in the source and a pair of lists here. \<open>mix_values.pop()\<close> raises
  \<open>IndexError\<close> on an empty list.
\<close>

type_synonym pair = "rat list \<times> rat list"
type_synonym pairing_state = "rat list \<times> rat list \<times> rat list \<times> pair list \<times> nat"

definition found_pair :: "nat list \<Rightarrow> nat \<Rightarrow> pairing_state \<Rightarrow> pairing_state" where
  \<comment> \<open>the block under \<open>if min_dist_cidx >= 0\<close>, for a non-empty \<open>mix_values\<close>\<close>
  "found_pair iidxs min_dist_cidx st =
     (case st of (in_values, change_values, mix_values, pairs, num_pairs_left) \<Rightarrow>
        let (cur_inputs, in_values') = remove_inputs iidxs in_values;
            cur_outputs = [last mix_values, change_values ! min_dist_cidx]
        in (in_values',
            take min_dist_cidx change_values @ drop (min_dist_cidx + 1) change_values,
            butlast mix_values,
            pairs @ [(cur_inputs, cur_outputs)],
            num_pairs_left - 1))"

function pair_loop :: "rat \<Rightarrow> (nat \<times> rat) list \<Rightarrow> pairing_state \<Rightarrow> error + pairing_state" where
  "pair_loop value_mixed cands (in_values, change_values, mix_values, pairs, num_pairs_left) =
     (if 1 < num_pairs_left then
        (case find_new_pair value_mixed cands in_values change_values of
           None \<Rightarrow> Inr (in_values, change_values, mix_values, pairs, num_pairs_left)
         | Some (iidxs, min_dist_cidx) \<Rightarrow>
             if mix_values = [] then Inl IndexError
             else pair_loop value_mixed cands
                    (found_pair iidxs min_dist_cidx
                       (in_values, change_values, mix_values, pairs, num_pairs_left)))
      else Inr (in_values, change_values, mix_values, pairs, num_pairs_left))"
  by pat_completeness auto
termination
  by (relation "measure (\<lambda>(value_mixed, cands, in_values, change_values, mix_values, pairs, n). n)")
    (auto simp: found_pair_def split: prod.splits)

declare pair_loop.simps [simp del]

subsection \<open>The taker and the result\<close>

definition pair_up_taker :: "nat \<Rightarrow> rat \<Rightarrow> pairing_state \<Rightarrow> error + pair list" where
  \<comment> \<open>the code after the \<open>while\<close> loop\<close>
  "pair_up_taker num_parties txfee st =
     (case st of (in_values, change_values, mix_values, pairs, num_pairs_left) \<Rightarrow>
        if num_pairs_left = 1 then
          if length mix_values \<noteq> num_pairs_left then Inl AssertionError
          else
            let sum_inputs = sum_list in_values;
                sum_outputs = sum_list change_values + sum_list mix_values;
                total_jmfee = sum_inputs - sum_outputs - txfee
            in if num_parties - 1 = 0
                 then (if total_jmfee = 0 then Inl InvalidOperation else Inl DivisionByZero)
               else if \<not> (MIN_JM_FEE < decimal_div total_jmfee (of_nat (num_parties - 1))
                          \<and> decimal_div total_jmfee (of_nat (num_parties - 1)) < MAX_JM_FEE)
                 then Inl (Unpairable Taker_fees_dont_add_up)
               else Inr ((in_values, mix_values @ change_values) # pairs)
        else if mix_values \<noteq> [] \<or> in_values \<noteq> [] \<or> change_values \<noteq> []
          then Inl (Unpairable (Unpairable_change_values change_values))
        else Inr pairs)"

text \<open>
  \<open>_pair_up_inout_values\<close>. The first loop moves every output equal to \<open>value_mixed\<close>
  from \<open>change_values\<close> to \<open>mix_values\<close>. When \<open>value_mixed\<close> is \<open>None\<close> no output is
  equal to it, \<open>num_parties\<close> is 0 and the \<open>while\<close> loop is not entered.
\<close>

definition pair_up_inout_values' ::
  "(rat list \<Rightarrow> nat list) \<Rightarrow> rat list \<Rightarrow> rat list \<Rightarrow> rat option \<Rightarrow> error + pair list" where
  "pair_up_inout_values' argsort in_values out_values value_mixed =
     (let change_values = sort (filter (\<lambda>v. Some v \<noteq> value_mixed) out_values);
          mix_values = filter (\<lambda>v. Some v = value_mixed) out_values;
          num_parties = length mix_values;
          txfee = sum_list in_values - sum_list out_values
      in if \<not> 0 \<le> txfee then Inl AssertionError
         else if \<not> (int num_parties - 1 \<le> int (length change_values)
                     \<and> length change_values \<le> num_parties)
           then Inl AssertionError
         else
           let bucket_sizes = map nat [1 .. int (length in_values) - int num_parties + 1];
               cands = gen_bucket_size_dist_pairs argsort bucket_sizes dists;
               st = (in_values, change_values, mix_values, [], num_parties)
           in (case (case value_mixed of
                       None \<Rightarrow> Inr st
                     | Some vm \<Rightarrow> pair_loop vm cands st) of
                 Inl e \<Rightarrow> Inl e
               | Inr st' \<Rightarrow> pair_up_taker num_parties txfee st'))"

definition pair_up_inout_values ::
  "(rat list \<Rightarrow> nat list) \<Rightarrow> rat list \<Rightarrow> rat list \<Rightarrow> rat option \<Rightarrow> error + pair list" where
  "pair_up_inout_values argsort in_values out_values value_mixed =
     (case value_mixed of
        None \<Rightarrow>
          (case get_value_mixed_from_values in_values out_values of
             Inl e \<Rightarrow> Inl e
           | Inr r \<Rightarrow> pair_up_inout_values' argsort in_values out_values (map_option fst r))
      | Some vm \<Rightarrow> pair_up_inout_values' argsort in_values out_values (Some vm))"

section \<open>\<open>JoinMarketTx\<close> and \<open>UnmixedJoinMarketTx\<close>\<close>

record jmtx = tx +
  pairs :: "pair list"

record unmixed_jmtx = jmtx +
  maker_addresses :: "address set"

definition JoinMarketTx :: "tx \<Rightarrow> pair list \<Rightarrow> jmtx" where
  "JoinMarketTx t ps = \<lparr>txid = txid t, vin = vin t, vout = vout t, pairs = ps\<rparr>"

definition UnmixedJoinMarketTx :: "jmtx \<Rightarrow> address list \<Rightarrow> unmixed_jmtx" where
  "UnmixedJoinMarketTx j addrs =
     \<lparr>txid = txid j, vin = vin j, vout = vout j, pairs = pairs j, maker_addresses = set addrs\<rparr>"

definition to_joinmarket_tx :: "(rat list \<Rightarrow> nat list) \<Rightarrow> blockchain \<Rightarrow> tx \<Rightarrow> error + jmtx" where
  "to_joinmarket_tx argsort chain t =
     (case check_potential_joinmarket_tx chain t of
        Inl e \<Rightarrow> Inl e
      | Inr (is_ok, desc) \<Rightarrow>
          if \<not> is_ok then Inl (Unpairable (Rejected desc))
          else
            (case pair_up_inout_values argsort (vin_values chain t) (vout_values t) None of
               Inl e \<Rightarrow> Inl e
             | Inr ps \<Rightarrow> Inr (JoinMarketTx t ps)))"

definition fee_paid_to_pair :: "pair \<Rightarrow> rat" where
  "fee_paid_to_pair p = sum_list (snd p) - sum_list (fst p)"

definition fee_paid_by_pair :: "pair \<Rightarrow> rat" where
  "fee_paid_by_pair p = - fee_paid_to_pair p"

definition num_parties :: "('a jmtx_scheme) \<Rightarrow> nat" where
  "num_parties j = length (pairs j)"

text \<open>\<open>float(x)\<close> of a \<open>Decimal\<close> is its nearest binary64 value, \<open>fl x\<close>.\<close>

definition taker_value_pair :: "('a jmtx_scheme) \<Rightarrow> error + pair" where
  \<comment> \<open>\<open>[...][0]\<close> raises \<open>IndexError\<close> on an empty list\<close>
  "taker_value_pair j =
     (case filter (\<lambda>p. 0 < fl (fee_paid_by_pair p)) (pairs j) of
        [] \<Rightarrow> Inl IndexError
      | p # _ \<Rightarrow> Inr p)"

definition maker_value_pairs :: "('a jmtx_scheme) \<Rightarrow> pair list" where
  "maker_value_pairs j = filter (\<lambda>p. 0 \<le> fl (fee_paid_to_pair p)) (pairs j)"

definition value_mixed :: "('a jmtx_scheme) \<Rightarrow> error + rat" where
  \<comment> \<open>the one value all pairs have among their outputs; \<open>x, = values\<close> raises \<open>ValueError\<close>
      unless there is exactly one, and \<open>self.pairs[0]\<close> raises \<open>IndexError\<close> without pairs\<close>
  "value_mixed j =
     (case pairs j of
        [] \<Rightarrow> Inl IndexError
      | p # ps \<Rightarrow>
          (case filter (\<lambda>v. \<forall>q \<in> set ps. v \<in> set (snd q)) (remdups (snd p)) of
             [x] \<Rightarrow> Inr x
           | _ \<Rightarrow> Inl ValueError))"

definition mixed_vouts :: "('a jmtx_scheme) \<Rightarrow> error + vout list" where
  \<comment> \<open>\<open>self.value_mixed\<close> is evaluated at the first output, and not at all without outputs\<close>
  "mixed_vouts j =
     (if vout j = [] then Inr []
      else (case value_mixed j of
              Inl e \<Rightarrow> Inl e
            | Inr vm \<Rightarrow> Inr (filter (\<lambda>vo. vout_value vo = vm) (vout j))))"

definition get_vout_addresses :: "vout \<Rightarrow> address list" where
  "get_vout_addresses vo = vout_addresses vo"

definition possible_taker_mixed_vouts :: "('a unmixed_jmtx_scheme) \<Rightarrow> error + vout list" where
  "possible_taker_mixed_vouts j =
     (case mixed_vouts j of
        Inl e \<Rightarrow> Inl e
      | Inr vs \<Rightarrow>
          Inr (filter (\<lambda>vo. maker_addresses j \<inter> set (get_vout_addresses vo) = {}) vs))"

text \<open>
  \<open>unmix_level\<close>: the quotient of two Python integers is the float nearest to the exact
  quotient, and raises \<open>ZeroDivisionError\<close> when the divisor is 0. The result \<open>None\<close> of the
  source is \<open>None\<close> here.
\<close>

definition unmix_level :: "('a unmixed_jmtx_scheme) \<Rightarrow> error + rat option" where
  "unmix_level j =
     (case possible_taker_mixed_vouts j of
        Inl e \<Rightarrow> Inl e
      | Inr vs \<Rightarrow>
          let possible_takers = length vs
          in if possible_takers = 0 then Inr None
             else
               let possible_makers = int (num_parties j) - int possible_takers
               in if int (num_parties j) - 1 = 0 then Inl ZeroDivisionError
                  else Inr (Some (fl (of_int possible_makers / of_int (int (num_parties j) - 1)))))"

section \<open>Pass 1 of the analysis (\<open>extract_maker_addresses_from_tx\<close>)\<close>

text \<open>
  The local list \<open>vin_values\<close> (\<open>vin_vals\<close> below) has its entries overwritten with \<open>None\<close> once they are used;
  \<open>list.index\<close> returns the first position of a value and raises \<open>ValueError\<close> when there
  is none.
\<close>

fun list_index :: "'a list \<Rightarrow> 'a \<Rightarrow> nat option" where
  "list_index [] v = None"
| "list_index (x # xs) v = (if x = v then Some 0 else map_option Suc (list_index xs v))"

fun extract_loop ::
  "blockchain \<Rightarrow> vin list \<Rightarrow> rat list \<Rightarrow> rat option list \<times> address set
     \<Rightarrow> error + rat option list \<times> address set" where
  "extract_loop chain vins [] st = Inr st"
| "extract_loop chain vins (v # values) (vin_vals, addresses) =
     (case list_index vin_vals (Some v) of
        None \<Rightarrow> Inl ValueError
      | Some i \<Rightarrow>
          let back_vout = chain (vins ! i)
          in if \<exists>addr \<in> set (get_vout_addresses back_vout). \<not> (30 \<le> length addr \<and> length addr \<le> 36)
               then Inl AssertionError
             else extract_loop chain vins values
                    (vin_vals[i := None], addresses \<union> set (get_vout_addresses back_vout)))"

definition extract_maker_addresses_from_tx :: "blockchain \<Rightarrow> ('a jmtx_scheme) \<Rightarrow> error + address set" where
  "extract_maker_addresses_from_tx chain j =
     (case extract_loop chain (vin j) (concat (map fst (maker_value_pairs j)))
             (map Some (vin_values chain j), {}) of
        Inl e \<Rightarrow> Inl e
      | Inr (vs, addresses) \<Rightarrow> Inr addresses)"

section \<open>Auxiliary definitions for the proofs\<close>

text \<open>
  The invariant of the \<open>while\<close> loop of \<open>_pair_up_inout_values\<close>: \<open>A\<close> and \<open>B\<close> are the
  input and output values of the transaction, \<open>N\<close> is the number of parties, and \<open>M\<close>
  bounds the tolerances of the candidates.
\<close>

definition loop_inv ::
  "rat \<Rightarrow> rat \<Rightarrow> rat multiset \<Rightarrow> rat multiset \<Rightarrow> nat \<Rightarrow> pairing_state \<Rightarrow> bool" where
  "loop_inv vm M A B N st =
     (case st of (iv, cv, mv, ps, n) \<Rightarrow>
        mset iv + mset (concat (map fst ps)) = A \<and>
        mset cv + mset mv + mset (concat (map snd ps)) = B \<and>
        mv = replicate n vm \<and>
        length ps + n = N \<and>
        vm \<notin> set cv \<and>
        (\<forall>p \<in> set ps. (\<exists>c. c \<noteq> vm \<and> snd p = [vm, c])
            \<and> MIN_JM_FEE < fee_paid_to_pair p \<and> fee_paid_to_pair p < M))"

text \<open>
  The cost function as the specification words it, with the bucket size itself and
  \<open>\<alpha> = 0.1\<close>; it is compared with \<open>penalty\<close>, the cost the program computes.
\<close>

definition spec_cost :: "nat \<Rightarrow> nat \<Rightarrow> rat" where
  "spec_cost bucket_size tolerance_index =
     of_nat (bucket_size ^ 2) + (1 / 10) * of_nat (tolerance_index ^ 2)"

section \<open>An example transaction\<close>

text \<open>
  A transaction of three parties, used to instantiate the theorems below: two makers fund
  1.5 and 2.5 and earn 0.0001 each, the taker funds 0.7 + 0.5, and the transaction fee is
  0.0001.
\<close>

definition example_in_values :: "rat list" where
  "example_in_values = [3 / 2, 5 / 2, 7 / 10, 1 / 2]"

definition example_out_values :: "rat list" where
  "example_out_values = [1, 5001 / 10000, 1, 15001 / 10000, 1, 1997 / 10000]"

definition example_pairs :: "pair list" where
  "example_pairs =
     [([7 / 10, 1 / 2], [1, 1997 / 10000]),
      ([3 / 2], [1, 5001 / 10000]),
      ([5 / 2], [1, 15001 / 10000])]"

definition example_address :: "nat \<Rightarrow> address" where
  "example_address k = CHR ''1'' # replicate 32 CHR ''A'' @ [char_of (97 + k)]"

definition example_chain :: blockchain where
  "example_chain i =
     \<lparr>vout_value = example_in_values ! vin_vout i,
      vout_addresses = [example_address (vin_vout i)]\<rparr>"

definition example_tx :: tx where
  "example_tx =
     \<lparr>txid = ''example'',
      vin = map (\<lambda>k. \<lparr>vin_txid = ''funding'', vin_vout = k\<rparr>) [0..<4],
      vout = map (\<lambda>(k, v). \<lparr>vout_value = v, vout_addresses = [example_address (10 + k)]\<rparr>)
               (enumerate 0 example_out_values)\<rparr>"

text \<open>
  The eleven tolerances, the penalties of one and of two bucket sizes, and the candidates
  of the example in the order of \<open>argsort_stable\<close>, written out.
\<close>

definition example_penalties :: "rat list" where
  "example_penalties =
     [0, 3602879701896397 / 2 ^ 55, 3602879701896397 / 2 ^ 53, 8106479329266893 / 2 ^ 53,
      3602879701896397 / 2 ^ 51, 5 / 2, 8106479329266893 / 2 ^ 51, 2758454771764429 / 2 ^ 49,
      3602879701896397 / 2 ^ 49, 4559894622712627 / 2 ^ 49, 10,
      1, 2476979795053773 / 2 ^ 51, 3152519739159347 / 2 ^ 51, 4278419646001971 / 2 ^ 51,
      5854679515581645 / 2 ^ 51, 7 / 2, 2589569785738035 / 2 ^ 49, 3321404725185741 / 2 ^ 49,
      4165829655317709 / 2 ^ 49, 5122844576133939 / 2 ^ 49, 11]"

definition example_idx_pairs :: "(nat \<times> nat) list" where
  "example_idx_pairs =
     [(0, 0), (0, 1), (0, 2), (0, 3), (1, 0), (1, 1), (1, 2), (0, 4), (1, 3), (0, 5), (1, 4),
      (1, 5), (0, 6), (1, 6), (0, 7), (1, 7), (0, 8), (1, 8), (0, 9), (1, 9), (0, 10), (1, 10)]"

definition example_cands :: "(nat \<times> rat) list" where
  "example_cands = map (\<lambda>(i, j). (i + 1, MIN_JM_FEE * 2 ^ (j + 4))) example_idx_pairs"

text \<open>A transaction with two inputs and two outputs.\<close>

definition small_tx :: tx where
  "small_tx =
     \<lparr>txid = ''small'',
      vin = map (\<lambda>k. \<lparr>vin_txid = ''funding'', vin_vout = k\<rparr>) [0..<2],
      vout = [\<lparr>vout_value = 1, vout_addresses = [example_address 20]\<rparr>,
              \<lparr>vout_value = 2, vout_addresses = [example_address 21]\<rparr>]\<rparr>"

text \<open>The value lists of Scenario A of the specification.\<close>

definition scenario_a_in_values :: "rat list" where
  "scenario_a_in_values =
     [11 / 10, 11 / 10, 11 / 10, 11 / 10, 2 / 10, 2 / 10, 2 / 10, 2 / 10, 5 / 100]"

definition scenario_a_out_values :: "rat list" where
  "scenario_a_out_values = [1, 1, 1, 1, 1, 99 / 1000, 99 / 1000, 99 / 1000, 99 / 1000]"


lemma ndigits_nonneg: "0 \<le> ndigits b n"
  by (induction b n rule: ndigits.induct) (subst ndigits.simps, simp)

lemma ndigits_pos: "1 < b \<Longrightarrow> 0 < n \<Longrightarrow> 0 < ndigits b n"
  using ndigits_nonneg [of b "n div b"] by (subst ndigits.simps) simp

lemma ndigits_bounds:
  "1 < b \<Longrightarrow> 0 < n \<Longrightarrow> b ^ (nat (ndigits b n) - 1) \<le> n \<and> n < b ^ nat (ndigits b n)"
proof (induction b n rule: ndigits.induct)
  case (1 b n)
  show ?case
  proof (cases "n div b = 0")
    case True
    then have "n < b" using 1(2,3)
      by (metis linorder_not_less nonneg1_imp_zdiv_pos_iff order_less_imp_le zero_less_one order_less_trans less_numeral_extra(3))
    moreover have "ndigits b n = 1"
      using True 1(2,3) by (subst ndigits.simps, subst ndigits.simps) simp
    ultimately show ?thesis using 1(3) by simp
  next
    case False
    then have pos: "0 < n div b"
      using 1(2,3) by (metis pos_imp_zdiv_nonneg_iff order_less_le order_less_trans zero_less_one)
    let ?k = "ndigits b (n div b)"
    have ih: "b ^ (nat ?k - 1) \<le> n div b" "n div b < b ^ nat ?k"
      using 1(1) [OF _ 1(2) pos] 1(2,3) by simp_all
    have kpos: "0 < ?k" using ndigits_pos [OF 1(2) pos] .
    have nd: "ndigits b n = ?k + 1"
      using 1(2,3) by (subst ndigits.simps) simp
    have e1: "nat (?k + 1) - 1 = Suc (nat ?k - 1)" using kpos by simp
    have e2: "nat (?k + 1) = Suc (nat ?k)" using kpos by simp
    have bpos: "0 < b" using 1(2) by simp
    have "b * (n div b) \<le> n"
    proof -
      have "b * (n div b) + n mod b = n" by simp
      moreover have "0 \<le> n mod b" using bpos by simp
      ultimately show ?thesis by linarith
    qed
    moreover have "b * b ^ (nat ?k - 1) \<le> b * (n div b)"
      using ih(1) bpos by simp
    ultimately have lo: "b ^ Suc (nat ?k - 1) \<le> n" by simp
    have "n div b + 1 \<le> b ^ nat ?k" using ih(2) by simp
    then have "b * (n div b + 1) \<le> b * b ^ nat ?k" using bpos by simp
    moreover have "n < b * (n div b + 1)"
    proof -
      have "b * (n div b) + n mod b = n" by simp
      moreover have "n mod b < b" using bpos by simp
      ultimately have "n < b * (n div b) + b" by linarith
      then show ?thesis by (simp add: algebra_simps)
    qed
    ultimately have hi: "n < b ^ Suc (nat ?k)" by simp
    have e3: "Suc (nat ?k - 1) = nat ?k" using kpos by simp
    show ?thesis using lo hi unfolding nd e1 e2 e3 by simp
  qed
qed

lemma ndigits_mono:
  assumes "1 < b" "0 < m" "m \<le> n"
  shows "ndigits b m \<le> ndigits b n"
proof -
  have n: "0 < n" using assms by simp
  have "b ^ (nat (ndigits b m) - 1) \<le> m" using ndigits_bounds [OF assms(1,2)] by simp
  also have "m \<le> n" by fact
  also have "n < b ^ nat (ndigits b n)" using ndigits_bounds [OF assms(1) n] by simp
  finally have "nat (ndigits b m) - 1 < nat (ndigits b n)"
    using assms(1) by (simp add: power_less_imp_less_exp)
  then show ?thesis using ndigits_pos [OF assms(1,2)] by linarith
qed

lemma round_half_even_lower: "0 < d \<Longrightarrow> n div d \<le> round_half_even n d"
  by (simp add: round_half_even_def Let_def)

lemma round_half_even_nonneg: "0 < d \<Longrightarrow> 0 \<le> n \<Longrightarrow> 0 \<le> round_half_even n d"
  using round_half_even_lower [of d n] pos_imp_zdiv_nonneg_iff [of d n] by linarith

lemma round_half_even_ge_1: "0 < d \<Longrightarrow> d \<le> n \<Longrightarrow> 1 \<le> round_half_even n d"
proof -
  assume a: "0 < d" "d \<le> n"
  then have "1 \<le> n div d" using pos_imp_zdiv_pos_iff [of d n] by linarith
  then show ?thesis using round_half_even_lower [OF a(1), of n] by linarith
qed

lemma round_half_even_le:
  assumes "0 < d" "n \<le> k * d"
  shows "round_half_even n d \<le> k"
proof (cases "n div d < k")
  case True
  then show ?thesis by (simp add: round_half_even_def Let_def)
next
  case False
  have "n div d \<le> (k * d) div d" using assms by (intro zdiv_mono1)
  moreover have "(k * d) div d = k" using assms(1) by simp
  ultimately have "n div d \<le> k" by simp
  with False have eq: "n div d = k" by simp
  have "k * d \<le> n"
  proof -
    have "d * (n div d) + n mod d = n" by simp
    moreover have "0 \<le> n mod d" using assms(1) by simp
    ultimately show ?thesis using eq by (simp add: mult.commute)
  qed
  then have "n = k * d" using assms(2) by simp
  then show ?thesis using assms(1) by (simp add: round_half_even_def Let_def)
qed


lemma round_sig_frac_scaled:
  assumes b: "1 < b" and p: "0 < p" and n: "0 < n" and d: "0 < d"
  shows "\<exists>s. int p + ndigits b d - ndigits b n - 1 \<le> s \<and>
           (if 0 \<le> s
            then d \<le> n * b ^ nat s \<and>
                 round_sig_frac b p n d = of_int (round_half_even (n * b ^ nat s) d) / of_int (b ^ nat s)
            else d * b ^ nat (- s) \<le> n \<and>
                 round_sig_frac b p n d = of_int (round_half_even n (d * b ^ nat (- s)) * b ^ nat (- s)))"
proof -
  define ln where "ln = ndigits b n"
  define ld where "ld = ndigits b d"
  define s0 where "s0 = int p + ld - ln"
  define c where "c \<longleftrightarrow> (if 0 \<le> s0 then d * b ^ p \<le> n * b ^ nat s0
                          else d * b ^ nat (- s0) * b ^ p \<le> n)"
  define s where "s = (if c then s0 - 1 else s0)"
  have bpos: "0 < b" using b by simp
  have b1: "1 \<le> b" using b by simp
  have lnpos: "0 < ln" and ldpos: "0 < ld"
    using ndigits_pos [OF b n] ndigits_pos [OF b d] by (simp_all add: ln_def ld_def)
  have nlo: "b ^ (nat ln - 1) \<le> n" and dhi: "d < b ^ nat ld"
    using ndigits_bounds [OF b n] ndigits_bounds [OF b d] by (simp_all add: ln_def ld_def)
  have bp: "b \<le> b ^ p"
    using p b1 by (metis One_nat_def Suc_leI power_increasing power_one_right)
  have rs: "round_sig_frac b p n d =
      (if 0 \<le> s then of_int (round_half_even (n * b ^ nat s) d) / of_int (b ^ nat s)
       else of_int (round_half_even n (d * b ^ nat (- s)) * b ^ nat (- s)))"
  proof -
    have "round_sig_frac b p n d =
      (if 0 \<le> s
       then of_int (if 0 \<le> s then round_half_even (n * b ^ nat s) d
                    else round_half_even n (d * b ^ nat (- s))) / of_int (b ^ nat s)
       else of_int ((if 0 \<le> s then round_half_even (n * b ^ nat s) d
                     else round_half_even n (d * b ^ nat (- s))) * b ^ nat (- s)))"
      unfolding round_sig_frac_def Let_def s_def c_def s0_def ln_def ld_def by (rule refl)
    then show ?thesis by (cases "0 \<le> s") simp_all
  qed
  have scaled: "if 0 \<le> s then d \<le> n * b ^ nat s else d * b ^ nat (- s) \<le> n"
  proof (cases c)
    case False
    then have ss: "s = s0" by (simp add: s_def)
    show ?thesis
    proof (cases "0 \<le> s0")
      case True
      have "nat ld \<le> (nat ln - 1) + nat s0"
        using True lnpos ldpos p unfolding s0_def by linarith
      then have "b ^ nat ld \<le> b ^ ((nat ln - 1) + nat s0)"
        using b1 by (rule power_increasing)
      also have "\<dots> = b ^ (nat ln - 1) * b ^ nat s0" by (simp add: power_add)
      also have "\<dots> \<le> n * b ^ nat s0"
        using nlo bpos by (simp add: mult_right_mono)
      finally show ?thesis using dhi True ss by simp
    next
      case neg: False
      have le: "nat ld + nat (- s0) \<le> nat ln - 1"
        using neg lnpos ldpos p unfolding s0_def by linarith
      have "d * b ^ nat (- s0) \<le> b ^ nat ld * b ^ nat (- s0)"
        using dhi bpos by (simp add: mult_right_mono)
      also have "\<dots> = b ^ (nat ld + nat (- s0))" by (simp add: power_add)
      also have "\<dots> \<le> b ^ (nat ln - 1)"
        using le b1 by (rule power_increasing)
      also have "\<dots> \<le> n" by (rule nlo)
      finally show ?thesis using neg ss by simp
    qed
  next
    case True
    then have ss: "s = s0 - 1" by (simp add: s_def)
    consider "1 \<le> s0" | "s0 = 0" | "s0 < 0" by linarith
    then show ?thesis
    proof cases
      case 1
      then have e: "nat s0 = Suc (nat (s0 - 1))" by simp
      have "d * b \<le> d * b ^ p" using bp d by simp
      also have "\<dots> \<le> n * b ^ nat s0" using True 1 by (simp add: c_def)
      also have "\<dots> = (n * b ^ nat (s0 - 1)) * b" by (simp add: e)
      finally have "d \<le> n * b ^ nat (s0 - 1)" using bpos by simp
      then show ?thesis using 1 ss by simp
    next
      case 2
      have "d * b \<le> d * b ^ p" using bp d by simp
      also have "\<dots> \<le> n" using True 2 by (simp add: c_def)
      finally show ?thesis using 2 ss by simp
    next
      case 3
      then have e: "nat (- (s0 - 1)) = Suc (nat (- s0))" by simp
      have "d * b ^ nat (- s0) * b \<le> d * b ^ nat (- s0) * b ^ p"
        using bp d bpos by (simp add: mult_left_mono)
      also have "\<dots> \<le> n" using True 3 by (simp add: c_def)
      finally have "d * b ^ Suc (nat (- s0)) \<le> n" by (simp add: ac_simps)
      moreover have "nat (- s) = Suc (nat (- s0))" using 3 ss by simp
      ultimately show ?thesis using 3 ss by (simp del: power_Suc)
    qed
  qed
  have "int p + ndigits b d - ndigits b n - 1 \<le> s"
    by (simp add: s_def s0_def ln_def ld_def)
  with rs scaled show ?thesis
    by (intro exI [of _ s]) (simp split: if_splits)
qed

lemma round_sig_frac_pos:
  assumes b: "1 < b" and p: "0 < p" and n: "0 < n" and d: "0 < d"
  shows "0 < round_sig_frac b p n d"
proof -
  have bpos: "0 < b" using b by simp
  obtain s where s: "if 0 \<le> s
            then d \<le> n * b ^ nat s \<and>
                 round_sig_frac b p n d = of_int (round_half_even (n * b ^ nat s) d) / of_int (b ^ nat s)
            else d * b ^ nat (- s) \<le> n \<and>
                 round_sig_frac b p n d = of_int (round_half_even n (d * b ^ nat (- s)) * b ^ nat (- s))"
    using round_sig_frac_scaled [OF assms] by blast
  show ?thesis
  proof (cases "0 \<le> s")
    case True
    then have "1 \<le> round_half_even (n * b ^ nat s) d"
      using s d by (simp add: round_half_even_ge_1)
    then show ?thesis using s True bpos by (simp add: zero_less_divide_iff)
  next
    case False
    have "0 < d * b ^ nat (- s)" using d bpos by simp
    then have "1 \<le> round_half_even n (d * b ^ nat (- s))"
      using s False by (simp add: round_half_even_ge_1)
    then show ?thesis using s False bpos by (simp add: zero_less_mult_iff)
  qed
qed

lemma round_sig_frac_le_1:
  assumes b: "1 < b" and p: "0 < p" and n: "0 < n" and nd: "n \<le> d"
  shows "round_sig_frac b p n d \<le> 1"
proof -
  have bpos: "0 < b" using b by simp
  have d: "0 < d" using n nd by simp
  obtain s where s0: "int p + ndigits b d - ndigits b n - 1 \<le> s"
    and s: "if 0 \<le> s
            then d \<le> n * b ^ nat s \<and>
                 round_sig_frac b p n d = of_int (round_half_even (n * b ^ nat s) d) / of_int (b ^ nat s)
            else d * b ^ nat (- s) \<le> n \<and>
                 round_sig_frac b p n d = of_int (round_half_even n (d * b ^ nat (- s)) * b ^ nat (- s))"
    using round_sig_frac_scaled [OF b p n d] by blast
  have "ndigits b n \<le> ndigits b d" using ndigits_mono [OF b n nd] .
  then have nonneg: "0 \<le> s" using s0 p by linarith
  have "n * b ^ nat s \<le> b ^ nat s * d" using nd bpos by (simp add: mult.commute mult_left_mono)
  then have "round_half_even (n * b ^ nat s) d \<le> b ^ nat s"
    using d by (rule round_half_even_le [rotated])
  then have "(of_int (round_half_even (n * b ^ nat s) d) :: rat) \<le> of_int (b ^ nat s)"
    by (simp only: of_int_le_iff)
  moreover have "(0::rat) < of_int (b ^ nat s)" using bpos by simp
  ultimately show ?thesis using s nonneg by (simp add: divide_le_eq_1)
qed

lemma quotient_of_abs:
  assumes "q \<noteq> 0"
  obtains n d where "quotient_of \<bar>q\<bar> = (n, d)" "0 < n" "0 < d" "\<bar>q\<bar> = of_int n / of_int d"
proof -
  obtain n d where nd: "quotient_of \<bar>q\<bar> = (n, d)" by (cases "quotient_of \<bar>q\<bar>")
  then have d: "0 < d" by (rule quotient_of_denom_pos)
  have eq: "\<bar>q\<bar> = of_int n / of_int d" using nd by (rule quotient_of_div)
  have "0 < \<bar>q\<bar>" using assms by simp
  then have "0 < n" using eq d by (simp add: zero_less_divide_iff)
  then show thesis using nd d eq that by blast
qed

lemma round_sig_pos_iff:
  assumes "1 < b" "0 < p"
  shows "0 < round_sig b p q \<longleftrightarrow> 0 < q"
proof (cases "q = 0")
  case True
  then show ?thesis by (simp add: round_sig_def)
next
  case False
  then obtain n d where nd: "quotient_of \<bar>q\<bar> = (n, d)" "0 < n" "0 < d"
    by (rule quotient_of_abs)
  have "0 < round_sig_frac b p n d" using assms nd(2,3) by (rule round_sig_frac_pos)
  then show ?thesis using False nd(1)
    by (simp add: round_sig_def zero_less_mult_iff sgn_if)
qed

lemma round_sig_neg_iff:
  assumes "1 < b" "0 < p"
  shows "round_sig b p q < 0 \<longleftrightarrow> q < 0"
proof (cases "q = 0")
  case True
  then show ?thesis by (simp add: round_sig_def)
next
  case False
  then obtain n d where nd: "quotient_of \<bar>q\<bar> = (n, d)" "0 < n" "0 < d"
    by (rule quotient_of_abs)
  have "0 < round_sig_frac b p n d" using assms nd(2,3) by (rule round_sig_frac_pos)
  then show ?thesis using False nd(1)
    by (simp add: round_sig_def mult_less_0_iff sgn_if)
qed

lemma round_sig_nonneg_iff:
  assumes "1 < b" "0 < p"
  shows "0 \<le> round_sig b p q \<longleftrightarrow> 0 \<le> q"
  using round_sig_neg_iff [OF assms, of q] by linarith

lemma round_sig_le_1:
  assumes "1 < b" "0 < p" "0 \<le> q" "q \<le> 1"
  shows "round_sig b p q \<le> 1"
proof (cases "q = 0")
  case True
  then show ?thesis by (simp add: round_sig_def)
next
  case False
  then obtain n d where nd: "quotient_of \<bar>q\<bar> = (n, d)" "0 < n" "0 < d" "\<bar>q\<bar> = of_int n / of_int d"
    by (rule quotient_of_abs)
  have "(of_int n :: rat) / of_int d \<le> 1" using nd(4) assms(3,4) by simp
  then have "(of_int n :: rat) \<le> of_int d" using nd(3) by (simp add: divide_le_eq_1)
  then have "n \<le> d" by (simp only: of_int_le_iff)
  then have "round_sig_frac b p n d \<le> 1" using assms(1,2) nd(2) by (intro round_sig_frac_le_1)
  then show ?thesis using False nd(1) assms(3) by (simp add: round_sig_def sgn_if)
qed

lemma fl_pos_iff [simp]: "0 < fl q \<longleftrightarrow> 0 < q"
  by (simp add: fl_def round_sig_pos_iff)

lemma fl_nonneg_iff [simp]: "0 \<le> fl q \<longleftrightarrow> 0 \<le> q"
  by (simp add: fl_def round_sig_nonneg_iff)

lemma fl_le_1: "0 \<le> q \<Longrightarrow> q \<le> 1 \<Longrightarrow> fl q \<le> 1"
  by (simp add: fl_def round_sig_le_1)

lemma decimal_div_pos_iff: "0 < decimal_div x y \<longleftrightarrow> 0 < x / y"
  by (simp add: decimal_div_def round_sig_pos_iff)


lemma combinations_sorted_wrt:
  "c \<in> set (combinations xs r) \<Longrightarrow> sorted_wrt P xs \<Longrightarrow> sorted_wrt P c \<and> set c \<subseteq> set xs"
proof (induction xs r arbitrary: c rule: combinations.induct)
  case (1 xs)
  then show ?case by simp
next
  case (2 r)
  then show ?case by simp
next
  case (3 x xs r)
  from "3.prems"(1) consider c' where "c = x # c'" "c' \<in> set (combinations xs r)"
    | "c \<in> set (combinations xs (Suc r))"
    by auto
  then show ?case
  proof cases
    case 1
    then have "sorted_wrt P c' \<and> set c' \<subseteq> set xs"
      using "3.IH"(1) "3.prems"(2) by simp
    then show ?thesis using 1(1) "3.prems"(2) by auto
  next
    case 2
    then have "sorted_wrt P c \<and> set c \<subseteq> set xs"
      using "3.IH"(2) "3.prems"(2) by simp
    then show ?thesis by auto
  qed
qed

lemma combinations_upt:
  assumes "c \<in> set (combinations [0..<n] r)"
  shows "sorted_wrt (<) c" and "\<forall>i \<in> set c. i < n"
  using combinations_sorted_wrt [OF assms, of "(<)"] by auto

lemma first_match_Some:
  "first_match f xs = Some y \<Longrightarrow> \<exists>x \<in> set xs. f x = Some y"
  by (induction xs) (auto split: option.splits)

lemma fold_min_dist:
  fixes vm sb :: rat
  defines "step \<equiv> (\<lambda>(cidx, change_value) (min_dist, min_dist_cidx).
             let dist = change_value + vm - sb
             in if MIN_JM_FEE < dist \<and> dist < min_dist then (dist, int cidx)
                else (min_dist, min_dist_cidx))"
  assumes "fold step (enumerate k xs) (md0, ci0) = (md, ci)"
  shows "(ci = ci0 \<and> md = md0) \<or>
         (\<exists>i < length xs. ci = int (k + i) \<and> md = xs ! i + vm - sb \<and> MIN_JM_FEE < md \<and> md < md0)"
  using assms(2)
proof (induction xs arbitrary: k md0 ci0)
  case Nil
  then show ?case by simp
next
  case (Cons x xs)
  show ?case
  proof (cases "MIN_JM_FEE < x + vm - sb \<and> x + vm - sb < md0")
    case True
    then have "fold step (enumerate (Suc k) xs) (x + vm - sb, int k) = (md, ci)"
      using Cons.prems by (simp add: step_def Let_def)
    from Cons.IH [OF this] show ?thesis
    proof
      assume "ci = int k \<and> md = x + vm - sb"
      then show ?thesis using True by (intro disjI2 exI [of _ 0]) simp
    next
      assume "\<exists>i<length xs. ci = int (Suc k + i) \<and> md = xs ! i + vm - sb \<and> MIN_JM_FEE < md \<and> md < x + vm - sb"
      then obtain i where "i < length xs" "ci = int (Suc k + i)" "md = xs ! i + vm - sb"
        "MIN_JM_FEE < md" "md < x + vm - sb" by blast
      then show ?thesis using True by (intro disjI2 exI [of _ "Suc i"]) simp
    qed
  next
    case False
    then have "fold step (enumerate (Suc k) xs) (md0, ci0) = (md, ci)"
      using Cons.prems by (auto simp add: step_def Let_def)
    from Cons.IH [OF this] show ?thesis
    proof
      assume "ci = ci0 \<and> md = md0"
      then show ?thesis by simp
    next
      assume "\<exists>i<length xs. ci = int (Suc k + i) \<and> md = xs ! i + vm - sb \<and> MIN_JM_FEE < md \<and> md < md0"
      then obtain i where "i < length xs" "ci = int (Suc k + i)" "md = xs ! i + vm - sb"
        "MIN_JM_FEE < md" "md < md0" by blast
      then show ?thesis by (intro disjI2 exI [of _ "Suc i"]) simp
    qed
  qed
qed

lemma min_dist_change_found:
  assumes "min_dist_change vm sb cm cv = (md, ci)" and "0 \<le> ci"
  shows "nat ci < length cv \<and> MIN_JM_FEE < cv ! nat ci + vm - sb \<and> cv ! nat ci + vm - sb < cm"
  using fold_min_dist [of vm sb 0 cv cm "- 1" md ci] assms
  by (auto simp: min_dist_change_def)

lemma try_bucket_Some:
  assumes "try_bucket vm cm iv cv iidxs = Some (js, ci)"
  shows "js = iidxs \<and> ci < length cv
         \<and> MIN_JM_FEE < cv ! ci + vm - sum_list (map ((!) iv) iidxs)
         \<and> cv ! ci + vm - sum_list (map ((!) iv) iidxs) < cm"
proof -
  obtain md k where mk: "min_dist_change vm (sum_list (map ((!) iv) iidxs)) cm cv = (md, k)"
    by (cases "min_dist_change vm (sum_list (map ((!) iv) iidxs)) cm cv")
  with assms have k: "0 \<le> k" "js = iidxs" "ci = nat k"
    by (auto simp: try_bucket_def Let_def split: if_splits)
  from min_dist_change_found [OF mk k(1)] k show ?thesis by simp
qed

lemma find_new_pair_Some:
  assumes "find_new_pair vm cands iv cv = Some (iidxs, ci)"
  shows "\<exists>(bs, cm) \<in> set cands.
           iidxs \<in> set (combinations [0..<length iv] bs) \<and> ci < length cv
           \<and> MIN_JM_FEE < cv ! ci + vm - sum_list (map ((!) iv) iidxs)
           \<and> cv ! ci + vm - sum_list (map ((!) iv) iidxs) < cm"
proof -
  from first_match_Some [OF assms [unfolded find_new_pair_def]]
  obtain bs cm where c: "(bs, cm) \<in> set cands"
    and "first_match (try_bucket vm cm iv cv) (combinations [0..<length iv] bs) = Some (iidxs, ci)"
    by auto
  from first_match_Some [OF this(2)]
  obtain js where js: "js \<in> set (combinations [0..<length iv] bs)"
    "try_bucket vm cm iv cv js = Some (iidxs, ci)" by auto
  from try_bucket_Some [OF js(2)] js(1) c show ?thesis by auto
qed

lemma mset_remove_nth:
  "i < length xs \<Longrightarrow> add_mset (xs ! i) (mset (take i xs @ drop (Suc i) xs)) = mset xs"
  by (metis add_mset_add_single id_take_nth_drop mset.simps(2) mset_append union_mset_add_mset_right)

lemma fold_remove_inputs:
  fixes xs :: "rat list"
  defines "step \<equiv> (\<lambda>iidx (cur_inputs, in_values).
             (cur_inputs @ [in_values ! iidx], take iidx in_values @ drop (iidx + 1) in_values))"
  assumes "sorted_wrt (>) js" "\<forall>j \<in> set js. j < length xs"
  shows "fst (fold step js (acc, xs)) = acc @ map ((!) xs) js
         \<and> mset (snd (fold step js (acc, xs))) + mset (map ((!) xs) js) = mset xs"
  using assms(2,3)
proof (induction js arbitrary: acc xs)
  case Nil
  then show ?case by simp
next
  case (Cons j js)
  let ?xs = "take j xs @ drop (j + 1) xs"
  have j: "j < length xs" using Cons.prems by simp
  have lt: "\<forall>i \<in> set js. i < j" using Cons.prems(1) by auto
  then have len: "\<forall>i \<in> set js. i < length ?xs" using j by auto
  have nth: "map ((!) ?xs) js = map ((!) xs) js"
    using lt j by (auto simp: nth_append)
  have s: "sorted_wrt (>) js" using Cons.prems(1) by simp
  have unf: "fold step (j # js) (acc, xs) = fold step js (acc @ [xs ! j], ?xs)"
    by (simp add: step_def)
  have ih1: "fst (fold step js (acc @ [xs ! j], ?xs)) = (acc @ [xs ! j]) @ map ((!) ?xs) js"
    and ih2: "mset (snd (fold step js (acc @ [xs ! j], ?xs))) + mset (map ((!) ?xs) js) = mset ?xs"
    using Cons.IH [OF s len, of "acc @ [xs ! j]"] by blast+
  have rm: "add_mset (xs ! j) (mset ?xs) = mset xs"
    using mset_remove_nth [OF j] by simp
  have "fst (fold step (j # js) (acc, xs)) = acc @ map ((!) xs) (j # js)"
    unfolding unf ih1 nth by simp
  moreover have "mset (snd (fold step (j # js) (acc, xs))) + mset (map ((!) xs) (j # js)) = mset xs"
  proof -
    have "mset (snd (fold step js (acc @ [xs ! j], ?xs))) + mset (map ((!) xs) (j # js))
        = add_mset (xs ! j) (mset (snd (fold step js (acc @ [xs ! j], ?xs))) + mset (map ((!) ?xs) js))"
      unfolding nth by simp
    also have "\<dots> = mset xs" unfolding ih2 rm ..
    finally show ?thesis unfolding unf .
  qed
  ultimately show ?case by blast
qed

lemma remove_inputs_props:
  assumes "sorted_wrt (<) iidxs" "\<forall>i \<in> set iidxs. i < length iv"
  shows "fst (remove_inputs iidxs iv) = map ((!) iv) (rev iidxs)"
    and "mset (snd (remove_inputs iidxs iv)) + mset (fst (remove_inputs iidxs iv)) = mset iv"
    and "sum_list (fst (remove_inputs iidxs iv)) = sum_list (map ((!) iv) iidxs)"
proof -
  have s: "sorted_wrt (>) (rev iidxs)" using assms(1) by (simp add: sorted_wrt_rev)
  have l: "\<forall>j \<in> set (rev iidxs). j < length iv" using assms(2) by simp
  from fold_remove_inputs [OF s l, of "[]"]
  have f: "fst (remove_inputs iidxs iv) = map ((!) iv) (rev iidxs)"
    and m: "mset (snd (remove_inputs iidxs iv)) + mset (map ((!) iv) (rev iidxs)) = mset iv"
    by (simp_all add: remove_inputs_def)
  show "fst (remove_inputs iidxs iv) = map ((!) iv) (rev iidxs)" by (rule f)
  show "mset (snd (remove_inputs iidxs iv)) + mset (fst (remove_inputs iidxs iv)) = mset iv"
    using m f by simp
  show "sum_list (fst (remove_inputs iidxs iv)) = sum_list (map ((!) iv) iidxs)"
    by (simp add: f rev_map [symmetric])
qed


lemma pair_loop_invariant:
  assumes run: "pair_loop vm cands st = Inr st'"
    and init: "I st"
    and step: "\<forall>iv cv mv ps n iidxs ci.
      I (iv, cv, mv, ps, n) \<longrightarrow> 1 < n \<longrightarrow> find_new_pair vm cands iv cv = Some (iidxs, ci) \<longrightarrow>
      mv \<noteq> [] \<longrightarrow> I (found_pair iidxs ci (iv, cv, mv, ps, n))"
  shows "I st'"
  using run init step
proof (induction vm cands st rule: pair_loop.induct)
  case (1 vm cands iv cv mv ps n)
  show ?case
  proof (cases "1 < n")
    case False
    then show ?thesis using "1.prems"(1,2) by (simp add: pair_loop.simps)
  next
    case True
    show ?thesis
    proof (cases "find_new_pair vm cands iv cv")
      case None
      then show ?thesis using "1.prems"(1,2) True by (simp add: pair_loop.simps)
    next
      case (Some m)
      obtain iidxs ci where m: "m = (iidxs, ci)" by (cases m)
      have f: "find_new_pair vm cands iv cv = Some (iidxs, ci)" using Some m by simp
      have ne: "mv \<noteq> []"
        using "1.prems"(1) True f by (auto simp: pair_loop.simps split: if_splits)
      have "pair_loop vm cands (iv, cv, mv, ps, n)
          = pair_loop vm cands (found_pair iidxs ci (iv, cv, mv, ps, n))"
        using True f ne by (subst pair_loop.simps) simp
      then have rec: "pair_loop vm cands (found_pair iidxs ci (iv, cv, mv, ps, n)) = Inr st'"
        using "1.prems"(1) by simp
      have "I (found_pair iidxs ci (iv, cv, mv, ps, n))"
        using "1.prems"(2,3) True f ne by blast
      from "1.IH" [OF True Some m [symmetric] ne rec this "1.prems"(3)] show ?thesis .
    qed
  qed
qed

lemma pair_loop_total:
  assumes init: "I st"
    and step: "\<forall>iv cv mv ps n iidxs ci.
      I (iv, cv, mv, ps, n) \<longrightarrow> 1 < n \<longrightarrow> find_new_pair vm cands iv cv = Some (iidxs, ci) \<longrightarrow>
      mv \<noteq> [] \<longrightarrow> I (found_pair iidxs ci (iv, cv, mv, ps, n))"
    and ne: "\<forall>iv cv mv ps n. I (iv, cv, mv, ps, n) \<longrightarrow> 1 < n \<longrightarrow> mv \<noteq> []"
  shows "\<exists>st'. pair_loop vm cands st = Inr st'"
  using init step ne
proof (induction vm cands st rule: pair_loop.induct)
  case (1 vm cands iv cv mv ps n)
  show ?case
  proof (cases "1 < n")
    case False
    then show ?thesis by (simp add: pair_loop.simps)
  next
    case True
    show ?thesis
    proof (cases "find_new_pair vm cands iv cv")
      case None
      then show ?thesis using True by (simp add: pair_loop.simps)
    next
      case (Some m)
      obtain iidxs ci where m: "m = (iidxs, ci)" by (cases m)
      have f: "find_new_pair vm cands iv cv = Some (iidxs, ci)" using Some m by simp
      have mv: "mv \<noteq> []" using "1.prems"(1,3) True by blast
      have "I (found_pair iidxs ci (iv, cv, mv, ps, n))"
        using "1.prems"(1,2) True f mv by blast
      from "1.IH" [OF True Some m [symmetric] mv this "1.prems"(2,3)]
      obtain st' where "pair_loop vm cands (found_pair iidxs ci (iv, cv, mv, ps, n)) = Inr st'"
        by blast
      moreover have "pair_loop vm cands (iv, cv, mv, ps, n)
          = pair_loop vm cands (found_pair iidxs ci (iv, cv, mv, ps, n))"
        using True f mv by (subst pair_loop.simps) simp
      ultimately have "pair_loop vm cands (iv, cv, mv, ps, n) = Inr st'" by (simp only:)
      then show ?thesis ..
    qed
  qed
qed

lemma loop_inv_step:
  assumes inv: "loop_inv vm M A B N (iv, cv, mv, ps, n)"
    and n: "1 < n"
    and found: "find_new_pair vm cands iv cv = Some (iidxs, ci)"
    and cands: "\<forall>(bs, cm) \<in> set cands. cm < M"
  shows "loop_inv vm M A B N (found_pair iidxs ci (iv, cv, mv, ps, n))"
proof -
  from find_new_pair_Some [OF found] obtain bs cm
    where c: "(bs, cm) \<in> set cands"
      and comb: "iidxs \<in> set (combinations [0..<length iv] bs)"
      and ci: "ci < length cv"
      and lo: "MIN_JM_FEE < cv ! ci + vm - sum_list (map ((!) iv) iidxs)"
      and hi: "cv ! ci + vm - sum_list (map ((!) iv) iidxs) < cm"
    by auto
  have cm: "cm < M" using cands c by auto
  note ri = remove_inputs_props [OF combinations_upt [OF comb]]
  obtain cur rest where r: "remove_inputs iidxs iv = (cur, rest)"
    by (cases "remove_inputs iidxs iv")
  have m1: "mset rest + mset cur = mset iv" using ri(2) r by simp
  have s1: "sum_list cur = sum_list (map ((!) iv) iidxs)" using ri(3) r by simp
  have mv: "mv = replicate n vm" using inv by (simp add: loop_inv_def)
  have last: "last mv = vm" and butlast: "butlast mv = replicate (n - 1) vm"
    using mv n by (simp_all add: butlast_conv_take)
  have mvne: "mv \<noteq> []" using mv n by auto
  have "mset (butlast mv @ [last mv]) = mset mv"
    by (simp only: append_butlast_last_id [OF mvne])
  then have mvm: "add_mset vm (mset (butlast mv)) = mset mv"
    unfolding last by simp
  have cvm: "add_mset (cv ! ci) (mset (take ci cv @ drop (Suc ci) cv)) = mset cv"
    using mset_remove_nth [OF ci] .
  have notin: "vm \<notin> set cv" using inv by (simp add: loop_inv_def)
  have cne: "cv ! ci \<noteq> vm" using notin ci by (metis nth_mem)
  have sub: "set (take ci cv @ drop (Suc ci) cv) \<subseteq> set cv"
    by (auto dest: in_set_takeD in_set_dropD)
  have fp: "found_pair iidxs ci (iv, cv, mv, ps, n) =
      (rest, take ci cv @ drop (Suc ci) cv, butlast mv, ps @ [(cur, [vm, cv ! ci])], n - 1)"
    by (simp add: found_pair_def r last)
  have A: "mset rest + mset (concat (map fst (ps @ [(cur, [vm, cv ! ci])]))) = A"
  proof -
    have "mset rest + mset (concat (map fst (ps @ [(cur, [vm, cv ! ci])])))
        = (mset rest + mset cur) + mset (concat (map fst ps))"
      by simp
    also have "\<dots> = mset iv + mset (concat (map fst ps))" unfolding m1 ..
    also have "\<dots> = A" using inv unfolding loop_inv_def prod.case by blast
    finally show ?thesis .
  qed
  have B: "mset (take ci cv @ drop (Suc ci) cv) + mset (butlast mv)
          + mset (concat (map snd (ps @ [(cur, [vm, cv ! ci])]))) = B"
  proof -
    have "mset (take ci cv @ drop (Suc ci) cv) + mset (butlast mv)
          + mset (concat (map snd (ps @ [(cur, [vm, cv ! ci])])))
        = add_mset (cv ! ci) (mset (take ci cv @ drop (Suc ci) cv))
          + add_mset vm (mset (butlast mv)) + mset (concat (map snd ps))"
      by simp
    also have "\<dots> = mset cv + mset mv + mset (concat (map snd ps))"
      unfolding cvm mvm ..
    also have "\<dots> = B" using inv unfolding loop_inv_def prod.case by blast
    finally show ?thesis .
  qed
  have fee: "fee_paid_to_pair (cur, [vm, cv ! ci]) = cv ! ci + vm - sum_list (map ((!) iv) iidxs)"
    by (simp add: fee_paid_to_pair_def s1)
  have old: "\<forall>p \<in> set ps. (\<exists>c. c \<noteq> vm \<and> snd p = [vm, c])
            \<and> MIN_JM_FEE < fee_paid_to_pair p \<and> fee_paid_to_pair p < M"
    using inv unfolding loop_inv_def prod.case by blast
  have new: "(\<exists>c. c \<noteq> vm \<and> snd (cur, [vm, cv ! ci]) = [vm, c])
            \<and> MIN_JM_FEE < fee_paid_to_pair (cur, [vm, cv ! ci])
            \<and> fee_paid_to_pair (cur, [vm, cv ! ci]) < M"
    using lo hi cm cne unfolding fee by auto
  have P: "\<forall>p \<in> set (ps @ [(cur, [vm, cv ! ci])]). (\<exists>c. c \<noteq> vm \<and> snd p = [vm, c])
            \<and> MIN_JM_FEE < fee_paid_to_pair p \<and> fee_paid_to_pair p < M"
    using old new by (metis in_set_conv_decomp_last rotate1.simps(2) set_ConsD set_rotate1)
  have L: "length (ps @ [(cur, [vm, cv ! ci])]) + (n - 1) = N"
    using inv n by (simp add: loop_inv_def)
  have notin': "vm \<notin> set (take ci cv @ drop (Suc ci) cv)" using notin sub by blast
  show ?thesis
    unfolding fp loop_inv_def prod.case
    using A B butlast L notin' P by (intro conjI)
qed

lemma pair_loop_inv:
  assumes run: "pair_loop vm cands st = Inr st'"
    and inv: "loop_inv vm M A B N st"
    and cands: "\<forall>(bs, cm) \<in> set cands. cm < M"
  shows "loop_inv vm M A B N st'"
  using run inv
proof (rule pair_loop_invariant [where I = "loop_inv vm M A B N"])
  show "\<forall>iv cv mv ps n iidxs ci.
      loop_inv vm M A B N (iv, cv, mv, ps, n) \<longrightarrow> 1 < n \<longrightarrow>
      find_new_pair vm cands iv cv = Some (iidxs, ci) \<longrightarrow> mv \<noteq> [] \<longrightarrow>
      loop_inv vm M A B N (found_pair iidxs ci (iv, cv, mv, ps, n))"
    using cands by (blast intro: loop_inv_step)
qed

lemma pair_loop_no_error:
  assumes inv: "loop_inv vm M A B N st"
    and cands: "\<forall>(bs, cm) \<in> set cands. cm < M"
  shows "\<exists>st'. pair_loop vm cands st = Inr st'"
  using inv
proof (rule pair_loop_total [where I = "loop_inv vm M A B N"])
  show "\<forall>iv cv mv ps n iidxs ci.
      loop_inv vm M A B N (iv, cv, mv, ps, n) \<longrightarrow> 1 < n \<longrightarrow>
      find_new_pair vm cands iv cv = Some (iidxs, ci) \<longrightarrow> mv \<noteq> [] \<longrightarrow>
      loop_inv vm M A B N (found_pair iidxs ci (iv, cv, mv, ps, n))"
    using cands by (blast intro: loop_inv_step)
  show "\<forall>iv cv mv ps n. loop_inv vm M A B N (iv, cv, mv, ps, n) \<longrightarrow> 1 < n \<longrightarrow> mv \<noteq> []"
    by (auto simp: loop_inv_def)
qed


lemma pair_loop_num_left:
  assumes "pair_loop vm cands (iv, cv, mv, ps, n) = Inr (iv', cv', mv', ps', n')"
  shows "n' \<le> n \<and> (1 \<le> n \<longrightarrow> 1 \<le> n')"
proof -
  have "case (iv', cv', mv', ps', n') of (a, b, c, d, k) \<Rightarrow> k \<le> n \<and> (1 \<le> n \<longrightarrow> 1 \<le> k)"
    by (rule pair_loop_invariant [OF assms]) (auto simp: found_pair_def split: prod.splits)
  then show ?thesis by simp
qed


subsection \<open>The mix value\<close>

lemma set_counter_keys: "set (counter_keys xs) = set xs"
  by (simp add: counter_keys_def)

lemma fold_most_common:
  defines "step xs \<equiv> (\<lambda>k' (best, c). if c < count_list xs k' then (k', count_list xs k') else (best, c))"
  assumes "fold (step xs) ks (k0, count_list xs k0) = (k, c)"
  shows "k \<in> set (k0 # ks) \<and> c = count_list xs k \<and> (\<forall>x \<in> set (k0 # ks). count_list xs x \<le> c)"
  using assms(2)
proof (induction ks arbitrary: k0)
  case Nil
  then show ?case by auto
next
  case (Cons a ks)
  show ?case
  proof (cases "count_list xs k0 < count_list xs a")
    case True
    then have "fold (step xs) ks (a, count_list xs a) = (k, c)"
      using Cons.prems by (simp add: step_def)
    from Cons.IH [OF this] True show ?thesis by auto
  next
    case False
    then have "fold (step xs) ks (k0, count_list xs k0) = (k, c)"
      using Cons.prems by (simp add: step_def)
    from Cons.IH [OF this] False show ?thesis by auto
  qed
qed

lemma most_common_1_None: "most_common_1 xs = None \<longleftrightarrow> xs = []"
proof -
  have "counter_keys xs = [] \<longleftrightarrow> xs = []" by (simp add: counter_keys_def)
  then show ?thesis by (auto simp: most_common_1_def split: list.splits)
qed

lemma most_common_1_Some:
  assumes "most_common_1 xs = Some (k, c)"
  shows "k \<in> set xs \<and> c = count_list xs k \<and> (\<forall>x. count_list xs x \<le> c)"
proof -
  obtain k0 ks where ck: "counter_keys xs = k0 # ks"
    using assms by (auto simp: most_common_1_def split: list.splits)
  then have f: "fold (\<lambda>k' (best, c). if c < count_list xs k' then (k', count_list xs k') else (best, c))
      ks (k0, count_list xs k0) = (k, c)"
    using assms by (simp add: most_common_1_def)
  have s: "set (k0 # ks) = set xs" using set_counter_keys [of xs] ck by simp
  from fold_most_common [OF f] have r: "k \<in> set (k0 # ks)" "c = count_list xs k"
    "\<forall>x \<in> set (k0 # ks). count_list xs x \<le> c" by blast+
  have "count_list xs x \<le> c" for x
  proof (cases "x \<in> set xs")
    case True
    then show ?thesis using r(3) s by blast
  next
    case False
    then show ?thesis by simp
  qed
  then show ?thesis using r(1,2) s by blast
qed

lemma count_list_filter_neq:
  "w \<noteq> v \<Longrightarrow> count_list (filter (\<lambda>x. x \<noteq> v) xs) w = count_list xs w"
  by (induction xs) auto

lemma get_value_mixed_from_values_Inl:
  "get_value_mixed_from_values ins outs = Inl e \<Longrightarrow> e = IndexError \<and> outs = []"
  by (auto simp: get_value_mixed_from_values_def most_common_1_None Let_def
      split: option.splits prod.splits if_splits)

lemma get_value_mixed_from_values_None:
  "get_value_mixed_from_values ins outs = Inr None \<Longrightarrow> outs \<noteq> []"
  by (auto simp: get_value_mixed_from_values_def most_common_1_def counter_keys_def)

lemma get_value_mixed_from_values_Some:
  assumes "get_value_mixed_from_values ins outs = Inr (Some (v, n))"
  shows "n = count_list outs v \<and> 3 \<le> n \<and> (\<forall>w. w \<noteq> v \<longrightarrow> count_list outs w < n)"
proof -
  obtain k c where mc: "most_common_1 outs = Some (k, c)"
    using assms by (auto simp: get_value_mixed_from_values_def split: option.splits)
  from most_common_1_Some [OF mc] have k: "c = count_list outs k" "\<forall>x. count_list outs x \<le> c"
    by blast+
  have c: "\<not> c \<le> 2" and kv: "k = v" "c = n"
    using assms mc by (auto simp: get_value_mixed_from_values_def Let_def split: option.splits if_splits)
  have "count_list outs w < n" if w: "w \<noteq> v" for w
  proof (cases "most_common_1 (filter (\<lambda>x. x \<noteq> v) outs)")
    case None
    then have "filter (\<lambda>x. x \<noteq> v) outs = []" by (simp add: most_common_1_None)
    then have "w \<notin> set outs" using w by (auto simp: filter_empty_conv)
    then show ?thesis using c kv by simp
  next
    case (Some r)
    obtain v2 c2 where r: "r = (v2, c2)" by (cases r)
    have ne: "c2 \<noteq> n"
      using assms mc Some r kv c
      by (auto simp: get_value_mixed_from_values_def Let_def split: option.splits if_splits)
    from most_common_1_Some [OF Some [unfolded r]]
    have v2: "v2 \<in> set (filter (\<lambda>x. x \<noteq> v) outs)"
      "c2 = count_list (filter (\<lambda>x. x \<noteq> v) outs) v2"
      "\<forall>x. count_list (filter (\<lambda>x. x \<noteq> v) outs) x \<le> c2" by blast+
    have "v2 \<noteq> v" using v2(1) by simp
    then have "c2 = count_list outs v2" using v2(2) by (simp add: count_list_filter_neq)
    then have "c2 \<le> n" using k(2) kv by simp
    then have "c2 < n" using ne by simp
    moreover have "count_list outs w \<le> c2"
      using v2(3) w by (metis count_list_filter_neq)
    ultimately show ?thesis by simp
  qed
  then show ?thesis using k kv c by auto
qed


lemma count_list_length_filter: "count_list xs v = length (filter (\<lambda>x. x = v) xs)"
  by (induction xs) auto

lemma filter_eq_replicate: "filter (\<lambda>x. x = v) xs = replicate (count_list xs v) v"
  by (induction xs) auto

lemma cands_bound_exists: "\<exists>M. \<forall>(bs, cm) \<in> set (cands :: (nat \<times> rat) list). cm < M"
proof (induction cands)
  case Nil
  then show ?case by simp
next
  case (Cons a cands)
  then obtain M where M: "\<forall>(bs, cm) \<in> set cands. cm < M" by blast
  obtain bs cm where a: "a = (bs, cm)" by (cases a)
  have "\<forall>(bs', cm') \<in> set (a # cands). cm' < max M (cm + 1)"
    using M a by (auto simp: less_max_iff_disj)
  then show ?case by blast
qed

lemma loop_inv_init:
  "loop_inv v M (mset ins) (mset outs) (count_list outs v)
     (ins, sort (filter (\<lambda>x. x \<noteq> v) outs), filter (\<lambda>x. x = v) outs, [], count_list outs v)"
proof -
  have "mset (filter (\<lambda>x. x \<noteq> v) outs) + mset (filter (\<lambda>x. x = v) outs) = mset outs"
    by (induction outs) auto
  then show ?thesis
    by (simp add: loop_inv_def filter_eq_replicate)
qed

lemma pair_up_None_success:
  assumes "pair_up_inout_values' argsort ins outs None = Inr res"
  shows "res = [] \<and> ins = [] \<and> outs = []"
proof -
  have "length (sort outs) \<le> 0"
    using assms by (auto simp: pair_up_inout_values'_def Let_def split: if_splits)
  then have o: "outs = []" by simp
  then show ?thesis
    using assms by (auto simp: pair_up_inout_values'_def Let_def pair_up_taker_def split: if_splits)
qed

lemma pair_up_Some_unfold:
  "pair_up_inout_values' argsort ins outs (Some v) =
      (if \<not> 0 \<le> sum_list ins - sum_list outs then Inl AssertionError
       else if \<not> (int (count_list outs v) - 1 \<le> int (length (filter (\<lambda>x. x \<noteq> v) outs))
                   \<and> length (filter (\<lambda>x. x \<noteq> v) outs) \<le> count_list outs v)
         then Inl AssertionError
       else (case pair_loop v
                   (gen_bucket_size_dist_pairs argsort
                      (map nat [1 .. int (length ins) - int (count_list outs v) + 1]) dists)
                   (ins, sort (filter (\<lambda>x. x \<noteq> v) outs), filter (\<lambda>x. x = v) outs, [],
                    count_list outs v) of
               Inl e \<Rightarrow> Inl e
             | Inr st' \<Rightarrow> pair_up_taker (count_list outs v) (sum_list ins - sum_list outs) st'))"
  by (simp add: pair_up_inout_values'_def Let_def count_list_length_filter
      cong del: sum.case_cong_weak)

lemma pair_up_Some_success:
  fixes v :: rat and outs :: "rat list"
  defines "N \<equiv> count_list outs v"
  assumes run: "pair_up_inout_values' argsort ins outs (Some v) = Inr res"
    and M: "\<forall>(bs, cm) \<in> set (gen_bucket_size_dist_pairs argsort
               (map nat [1 .. int (length ins) - int N + 1]) dists). cm < M"
  shows "(N = 0 \<and> res = [] \<and> ins = [] \<and> outs = []) \<or>
         (2 \<le> N \<and> 0 \<le> sum_list ins - sum_list outs \<and>
          (\<exists>iv cv ps. res = (iv, v # cv) # ps
             \<and> loop_inv v M (mset ins) (mset outs) N (iv, cv, [v], ps, 1)
             \<and> MIN_JM_FEE < decimal_div (sum_list iv - (sum_list cv + v) - (sum_list ins - sum_list outs))
                                (of_nat (N - 1))
             \<and> decimal_div (sum_list iv - (sum_list cv + v) - (sum_list ins - sum_list outs))
                                (of_nat (N - 1)) < MAX_JM_FEE))"
proof -
  define cands where "cands = gen_bucket_size_dist_pairs argsort
               (map nat [1 .. int (length ins) - int N + 1]) dists"
  define st0 where "st0 = (ins, sort (filter (\<lambda>x. x \<noteq> v) outs), filter (\<lambda>x. x = v) outs,
      [] :: pair list, N)"
  define txfee where "txfee = sum_list ins - sum_list outs"
  have unf: "pair_up_inout_values' argsort ins outs (Some v) =
      (if \<not> 0 \<le> txfee then Inl AssertionError
       else if \<not> (int N - 1 \<le> int (length (filter (\<lambda>x. x \<noteq> v) outs))
                   \<and> length (filter (\<lambda>x. x \<noteq> v) outs) \<le> N) then Inl AssertionError
       else (case pair_loop v cands st0 of Inl e \<Rightarrow> Inl e
             | Inr st' \<Rightarrow> pair_up_taker N txfee st'))"
    unfolding pair_up_Some_unfold N_def cands_def st0_def txfee_def ..
  from run have fee: "0 \<le> txfee"
    and res: "(case pair_loop v cands st0 of Inl e \<Rightarrow> Inl e
             | Inr st' \<Rightarrow> pair_up_taker N txfee st') = Inr res"
    unfolding unf by (auto split: if_splits)
  from res obtain st' where loop: "pair_loop v cands st0 = Inr st'"
    and taker: "pair_up_taker N txfee st' = Inr res"
    by (cases "pair_loop v cands st0") auto
  obtain iv cv mv ps n where st': "st' = (iv, cv, mv, ps, n)" by (cases st')
  have inv0: "loop_inv v M (mset ins) (mset outs) N st0"
    unfolding st0_def N_def by (rule loop_inv_init)
  have cb: "\<forall>(bs, cm) \<in> set cands. cm < M" using M by (simp add: cands_def)
  have inv: "loop_inv v M (mset ins) (mset outs) N (iv, cv, mv, ps, n)"
    using pair_loop_inv [OF loop inv0 cb] st' by simp
  have nl: "n \<le> N" "1 \<le> N \<longrightarrow> 1 \<le> n"
    using pair_loop_num_left [OF loop [unfolded st0_def st']] by simp_all
  have mv: "mv = replicate n v" and len: "length ps + n = N"
    and A: "mset iv + mset (concat (map fst ps)) = mset ins"
    and B: "mset cv + mset mv + mset (concat (map snd ps)) = mset outs"
    using inv unfolding loop_inv_def prod.case by blast+
  show ?thesis
  proof (cases "n = 1")
    case True
    then have mv1: "mv = [v]" using mv by simp
    have N1: "N - 1 \<noteq> 0"
      using taker True mv1 by (auto simp: st' pair_up_taker_def Let_def split: if_splits)
    then have N2: "2 \<le> N" by simp
    have chk: "MIN_JM_FEE < decimal_div (sum_list iv - (sum_list cv + v) - txfee) (of_nat (N - 1))"
      "decimal_div (sum_list iv - (sum_list cv + v) - txfee) (of_nat (N - 1)) < MAX_JM_FEE"
      and r: "res = (iv, v # cv) # ps"
      using taker True mv1 N1 by (auto simp: st' pair_up_taker_def Let_def split: if_splits)
    show ?thesis
      using N2 fee r inv chk unfolding True mv1 txfee_def by blast
  next
    case False
    then have e: "mv = []" "iv = []" "cv = []" and r: "res = ps"
      using taker by (auto simp: st' pair_up_taker_def Let_def split: if_splits)
    have "n = 0" using e(1) mv by simp
    then have N0: "N = 0" using nl by simp
    then have "ps = []" using len by simp
    then show ?thesis using N0 r e A B by simp
  qed
qed


subsection \<open>The candidates under the contract of argsort\<close>

lemma length_penalty_matrix: "length (penalty_matrix nb nd) = nb * nd"
  by (induction nb) (simp_all add: penalty_matrix_def)

lemma nth_penalty_matrix:
  "k < nb * nd \<Longrightarrow> penalty_matrix nb nd ! k = penalty (k div nd) (k mod nd)"
proof (induction nb)
  case 0
  then show ?case by simp
next
  case (Suc nb)
  have split: "penalty_matrix (Suc nb) nd = penalty_matrix nb nd @ map (penalty nb) [0..<nd]"
    by (simp add: penalty_matrix_def)
  show ?case
  proof (cases "k < nb * nd")
    case True
    then show ?thesis using Suc.IH by (simp add: split nth_append length_penalty_matrix)
  next
    case False
    then have ge: "nb * nd \<le> k" by simp
    have lt: "k - nb * nd < nd" using Suc.prems ge by simp
    have d: "k div nd = nb"
      by (rule div_nat_eqI) (use ge Suc.prems in \<open>simp_all add: mult.commute\<close>)
    have "k mod nd = k - k div nd * nd" by (simp add: modulo_nat_def)
    then have dm: "k div nd = nb" "k mod nd = k - nb * nd" using d by simp_all
    show ?thesis using False lt by (simp add: split nth_append length_penalty_matrix dm)
  qed
qed

lemma argsort_contract_set:
  "argsort_contract argsort d \<Longrightarrow> set (argsort d) = {0..<length d}"
  by (metis argsort_contract_def mset_eq_setD set_upt)

lemma gen_idx_pairs_in_range:
  assumes "argsort_contract argsort (penalty_matrix nb nd)"
    and "(i, j) \<in> set (gen_idx_pairs argsort nb nd)"
  shows "i < nb \<and> j < nd"
proof -
  from assms(2) obtain k where k: "k \<in> set (argsort (penalty_matrix nb nd))"
    and ij: "i = k div nd" "j = k mod nd"
    by (auto simp: gen_idx_pairs_def)
  have lt: "k < nb * nd"
    using argsort_contract_set [OF assms(1)] k by (simp add: length_penalty_matrix)
  then have "0 < nd" by (cases nd) simp_all
  then show ?thesis using lt ij by (simp add: less_mult_imp_div_less)
qed

lemma gen_bucket_size_dist_pairs_in_dists:
  assumes "argsort_contract argsort (penalty_matrix (length bss) (length ds))"
    and "(bs, cm) \<in> set (gen_bucket_size_dist_pairs argsort bss ds)"
  shows "bs \<in> set bss \<and> cm \<in> set ds"
proof -
  from assms(2) obtain i j where ij: "(i, j) \<in> set (gen_idx_pairs argsort (length bss) (length ds))"
    and e: "bs = bss ! i" "cm = ds ! j"
    by (auto simp: gen_bucket_size_dist_pairs_def)
  from gen_idx_pairs_in_range [OF assms(1) ij] e show ?thesis by simp
qed

lemma dists_less_MAX: "d \<in> set dists \<Longrightarrow> d < MAX_JM_FEE"
  unfolding dists_def set_filter by blast

lemma MIN_JM_FEE_pos: "0 < MIN_JM_FEE"
  by (simp add: MIN_JM_FEE_def)

subsection \<open>The shape of a successful pairing\<close>

lemma pairing_shape:
  assumes run: "pair_up_inout_values argsort ins outs vmo = Inr res"
  obtains (empty) "vmo \<noteq> None" "res = []" "ins = []" "outs = []"
  | (paired) v iv cv ps M where
      "res = (iv, v # cv) # ps"
      "vmo = None \<or> vmo = Some v"
      "vmo = None \<longrightarrow> get_value_mixed_from_values ins outs = Inr (Some (v, count_list outs v))"
      "2 \<le> count_list outs v"
      "0 \<le> sum_list ins - sum_list outs"
      "loop_inv v M (mset ins) (mset outs) (count_list outs v) (iv, cv, [v], ps, 1)"
      "(\<forall>(bs, cm) \<in> set (gen_bucket_size_dist_pairs argsort
           (map nat [1 .. int (length ins) - int (count_list outs v) + 1]) dists). cm < MAX_JM_FEE)
         \<longrightarrow> M = MAX_JM_FEE"
      "MIN_JM_FEE < decimal_div (sum_list iv - (sum_list cv + v) - (sum_list ins - sum_list outs))
                                (of_nat (count_list outs v - 1))"
      "decimal_div (sum_list iv - (sum_list cv + v) - (sum_list ins - sum_list outs))
                                (of_nat (count_list outs v - 1)) < MAX_JM_FEE"
proof -
  have "\<exists>vm. pair_up_inout_values' argsort ins outs vm = Inr res
     \<and> (vmo = None \<or> vmo = vm)
     \<and> (vmo = None \<longrightarrow> (\<exists>r. get_value_mixed_from_values ins outs = Inr r \<and> vm = map_option fst r))"
    using run by (auto simp: pair_up_inout_values_def split: option.splits sum.splits)
  then obtain vm where run': "pair_up_inout_values' argsort ins outs vm = Inr res"
    and vm: "vmo = None \<or> vmo = vm"
    and gv: "vmo = None \<longrightarrow> (\<exists>r. get_value_mixed_from_values ins outs = Inr r \<and> vm = map_option fst r)"
    by blast
  show thesis
  proof (cases vm)
    case None
    from pair_up_None_success [OF run' [unfolded None]]
    have e: "res = []" "ins = []" "outs = []" by simp_all
    have "vmo \<noteq> None"
    proof
      assume "vmo = None"
      then obtain r where "get_value_mixed_from_values ins outs = Inr r" using gv by blast
      then show False using e(3)
        by (simp add: get_value_mixed_from_values_def most_common_1_def counter_keys_def)
    qed
    then show thesis using e by (rule empty)
  next
    case (Some v)
    let ?cands = "gen_bucket_size_dist_pairs argsort
           (map nat [1 .. int (length ins) - int (count_list outs v) + 1]) dists"
    obtain M where M: "\<forall>(bs, cm) \<in> set ?cands. cm < M"
      and MM: "(\<forall>(bs, cm) \<in> set ?cands. cm < MAX_JM_FEE) \<longrightarrow> M = MAX_JM_FEE"
    proof (cases "\<forall>(bs, cm) \<in> set ?cands. cm < MAX_JM_FEE")
      case True
      then show ?thesis using that by blast
    next
      case False
      obtain M where "\<forall>(bs, cm) \<in> set ?cands. cm < M" using cands_bound_exists by blast
      then show ?thesis using that False by blast
    qed
    have gv': "vmo = None \<longrightarrow> get_value_mixed_from_values ins outs = Inr (Some (v, count_list outs v))"
    proof
      assume "vmo = None"
      then obtain r where r: "get_value_mixed_from_values ins outs = Inr r" "vm = map_option fst r"
        using gv by blast
      then obtain n where "r = Some (v, n)" using Some by (cases r) auto
      then show "get_value_mixed_from_values ins outs = Inr (Some (v, count_list outs v))"
        using r(1) get_value_mixed_from_values_Some [of ins outs v n] by simp
    qed
    from pair_up_Some_success [OF run' [unfolded Some] M]
    show thesis
    proof
      assume e: "count_list outs v = 0 \<and> res = [] \<and> ins = [] \<and> outs = []"
      have "vmo \<noteq> None"
      proof
        assume "vmo = None"
        then have "3 \<le> count_list outs v"
          using gv' get_value_mixed_from_values_Some [of ins outs v "count_list outs v"] by simp
        then show False using e by simp
      qed
      then show thesis using e by (intro empty) simp_all
    next
      assume "2 \<le> count_list outs v \<and> 0 \<le> sum_list ins - sum_list outs \<and>
          (\<exists>iv cv ps. res = (iv, v # cv) # ps
             \<and> loop_inv v M (mset ins) (mset outs) (count_list outs v) (iv, cv, [v], ps, 1)
             \<and> MIN_JM_FEE < decimal_div (sum_list iv - (sum_list cv + v) - (sum_list ins - sum_list outs))
                                (of_nat (count_list outs v - 1))
             \<and> decimal_div (sum_list iv - (sum_list cv + v) - (sum_list ins - sum_list outs))
                                (of_nat (count_list outs v - 1)) < MAX_JM_FEE)"
      then obtain iv cv ps where "2 \<le> count_list outs v" "0 \<le> sum_list ins - sum_list outs"
        "res = (iv, v # cv) # ps"
        "loop_inv v M (mset ins) (mset outs) (count_list outs v) (iv, cv, [v], ps, 1)"
        "MIN_JM_FEE < decimal_div (sum_list iv - (sum_list cv + v) - (sum_list ins - sum_list outs))
                                (of_nat (count_list outs v - 1))"
        "decimal_div (sum_list iv - (sum_list cv + v) - (sum_list ins - sum_list outs))
                                (of_nat (count_list outs v - 1)) < MAX_JM_FEE"
        by blast
      then show thesis using vm Some gv' MM by (intro paired [of iv v cv ps M]) simp_all
    qed
  qed
qed

lemma taker_pays:
  assumes "2 \<le> (N :: nat)" "0 \<le> txfee"
    and "MIN_JM_FEE < decimal_div (sum_list iv - (sum_list cv + v) - txfee) (of_nat (N - 1))"
  shows "fee_paid_to_pair (iv, v # cv) < 0"
proof -
  have "0 < decimal_div (sum_list iv - (sum_list cv + v) - txfee) (of_nat (N - 1))"
    using assms(3) MIN_JM_FEE_pos by simp
  then have "0 < (sum_list iv - (sum_list cv + v) - txfee) / of_nat (N - 1)"
    by (simp add: decimal_div_pos_iff)
  moreover have "(0::rat) < of_nat (N - 1)" using assms(1) by simp
  ultimately have "0 < sum_list iv - (sum_list cv + v) - txfee"
    by (simp add: zero_less_divide_iff)
  then show ?thesis using assms(2) by (simp add: fee_paid_to_pair_def)
qed


lemma loop_inv_makers:
  assumes "loop_inv v M A B N (iv, cv, mv, ps, n)" "p \<in> set ps"
  shows "MIN_JM_FEE < fee_paid_to_pair p" "fee_paid_to_pair p < M" "\<exists>c. c \<noteq> v \<and> snd p = [v, c]"
  using assms unfolding loop_inv_def prod.case by blast+

lemma loop_inv_msets:
  assumes "loop_inv v M A B N (iv, cv, mv, ps, n)"
  shows "mset iv + mset (concat (map fst ps)) = A"
    "mset cv + mset mv + mset (concat (map snd ps)) = B"
    "length ps + n = N"
  using assms unfolding loop_inv_def prod.case by blast+

text \<open>
  Claim C1: when \<open>pair_up_inout_values\<close> returns, the inputs of the returned groups,
  taken together as a multiset, are the input values, and the outputs of the groups are the
  output values: the groups partition both lists, and no value is created, destroyed,
  duplicated or dropped. This holds for every \<open>argsort\<close> and every \<open>value_mixed\<close> argument.
\<close>

theorem pairing_preserves_values:
  assumes "pair_up_inout_values argsort in_values out_values vmo = Inr ps"
  shows "mset (concat (map fst ps)) = mset in_values
       \<and> mset (concat (map snd ps)) = mset out_values"
  using assms
proof (cases rule: pairing_shape)
  case empty
  then show ?thesis by simp
next
  case (paired v iv cv qs M)
  from loop_inv_msets(1,2) [OF paired(6)] show ?thesis
    unfolding paired(1) by (simp add: ac_simps)
qed

lemma views_of_pairing:
  fixes j :: "'a jmtx_scheme"
  assumes "pairs j = (iv, v # cv) # ps"
    and "fee_paid_to_pair (iv, v # cv) < 0"
    and "\<forall>p \<in> set ps. 0 < fee_paid_to_pair p"
  shows "taker_value_pair j = Inr (iv, v # cv)" and "maker_value_pairs j = ps"
    and "filter (\<lambda>p. fee_paid_to_pair p < 0) (pairs j) = [(iv, v # cv)]"
proof -
  have "filter (\<lambda>p. 0 \<le> fee_paid_to_pair p) ps = ps"
    using assms(3) by (auto simp: filter_id_conv order_less_imp_le)
  then show "maker_value_pairs j = ps"
    using assms(1,2) by (simp add: maker_value_pairs_def)
  show "taker_value_pair j = Inr (iv, v # cv)"
    using assms(1,2) by (simp add: taker_value_pair_def fee_paid_by_pair_def)
  have "filter (\<lambda>p. fee_paid_to_pair p < 0) ps = []"
    using assms(3) by (auto simp: filter_empty_conv)
  then show "filter (\<lambda>p. fee_paid_to_pair p < 0) (pairs j) = [(iv, v # cv)]"
    using assms(1,2) by simp
qed

text \<open>
  Claim C2: after a successful run every group other than the first one, which is the
  taker's, has a fee (the sum of its outputs minus the sum of its inputs) strictly between
  \<open>MIN_JM_FEE\<close> and \<open>MAX_JM_FEE\<close>; these groups are exactly \<open>maker_value_pairs\<close>. The
  tolerances are read from \<open>dists\<close> at the positions \<open>argsort\<close> returns, so the contract
  of \<open>argsort\<close> is assumed.
\<close>

theorem maker_fees_in_band:
  fixes j :: "'a jmtx_scheme"
  assumes "pair_up_inout_values argsort in_values out_values vmo = Inr (pairs j)"
    and "\<forall>d. argsort_contract argsort d"
  shows "(\<forall>p \<in> set (tl (pairs j)).
            MIN_JM_FEE < fee_paid_to_pair p \<and> fee_paid_to_pair p < MAX_JM_FEE)
       \<and> maker_value_pairs j = tl (pairs j)"
  using assms(1)
proof (cases rule: pairing_shape)
  case empty
  then show ?thesis by (simp add: maker_value_pairs_def)
next
  case (paired v iv cv ps M)
  have "\<forall>(bs, cm) \<in> set (gen_bucket_size_dist_pairs argsort
           (map nat [1 .. int (length in_values) - int (count_list out_values v) + 1]) dists).
           cm < MAX_JM_FEE"
    using gen_bucket_size_dist_pairs_in_dists assms(2) dists_less_MAX by blast
  then have M: "M = MAX_JM_FEE" using paired(7) by blast
  have tk: "fee_paid_to_pair (iv, v # cv) < 0"
    using paired(4,5,8) by (rule taker_pays)
  have mk: "\<forall>p \<in> set ps. 0 < fee_paid_to_pair p"
    using loop_inv_makers(1) [OF paired(6)] MIN_JM_FEE_pos by (meson order_less_trans)
  have "maker_value_pairs j = ps" using paired(1) tk mk by (rule views_of_pairing)
  then show ?thesis
    using loop_inv_makers(1,2) [OF paired(6)] M paired(1) by simp
qed

text \<open>
  Claim C5, as amended: a successful run returns the empty pairing only when both value
  lists are empty and \<open>value_mixed\<close> is passed explicitly; every other pairing it returns
  has a first group that is the only one with a negative net flow (the sum of its outputs
  minus the sum of its inputs), every other group has a non-negative one,
  \<open>taker_value_pair\<close> is defined and is that first group, and \<open>maker_value_pairs\<close> are the
  others.
\<close>

theorem one_taker_group:
  fixes j :: "'a jmtx_scheme"
  assumes "pair_up_inout_values argsort in_values out_values vmo = Inr (pairs j)"
  shows "(vmo \<noteq> None \<and> pairs j = [] \<and> in_values = [] \<and> out_values = [])
       \<or> (\<exists>taker makers. pairs j = taker # makers
             \<and> fee_paid_to_pair taker < 0
             \<and> (\<forall>m \<in> set makers. 0 \<le> fee_paid_to_pair m)
             \<and> filter (\<lambda>p. fee_paid_to_pair p < 0) (pairs j) = [taker]
             \<and> taker_value_pair j = Inr taker
             \<and> maker_value_pairs j = makers)"
  using assms
proof (cases rule: pairing_shape)
  case empty
  then show ?thesis by simp
next
  case (paired v iv cv ps M)
  have tk: "fee_paid_to_pair (iv, v # cv) < 0"
    using paired(4,5,8) by (rule taker_pays)
  have mk: "\<forall>p \<in> set ps. 0 < fee_paid_to_pair p"
    using loop_inv_makers(1) [OF paired(6)] MIN_JM_FEE_pos by (meson order_less_trans)
  note views_of_pairing [OF paired(1) tk mk]
  moreover have "\<forall>m \<in> set ps. 0 \<le> fee_paid_to_pair m" using mk by (simp add: order_less_imp_le)
  ultimately show ?thesis using paired(1) tk by blast
qed


section \<open>The failures of the pairing algorithm\<close>

lemma pair_up_taker_result:
  assumes inv: "loop_inv v M A B N (iv, cv, mv, ps, n)" and N: "N \<noteq> 1"
  shows "(\<exists>res. pair_up_taker N txfee (iv, cv, mv, ps, n) = Inr res)
       \<or> pair_up_taker N txfee (iv, cv, mv, ps, n) = Inl (Unpairable Taker_fees_dont_add_up)
       \<or> (\<exists>c. pair_up_taker N txfee (iv, cv, mv, ps, n) = Inl (Unpairable (Unpairable_change_values c)))"
proof -
  have mv: "mv = replicate n v" and len: "length ps + n = N"
    using inv unfolding loop_inv_def prod.case by blast+
  show ?thesis
  proof (cases "n = 1")
    case True
    then have "length mv = 1" using mv by simp
    moreover have "N - 1 \<noteq> 0" using N len True by simp
    ultimately show ?thesis using True by (simp add: pair_up_taker_def Let_def)
  next
    case False
    then show ?thesis by (simp add: pair_up_taker_def)
  qed
qed

lemma pair_up_Some_failures:
  fixes ins outs :: "rat list" and v :: rat and argsort :: "rat list \<Rightarrow> nat list"
  defines "n \<equiv> count_list outs v"
  defines "m \<equiv> length (filter (\<lambda>x. x \<noteq> v) outs)"
  defines "r \<equiv> pair_up_inout_values' argsort ins outs (Some v)"
  shows "(sum_list ins < sum_list outs \<or> \<not> (int n - 1 \<le> int m \<and> m \<le> n) \<longrightarrow> r = Inl AssertionError)
       \<and> (\<not> sum_list ins < sum_list outs \<and> int n - 1 \<le> int m \<and> m \<le> n \<and> n = 1
            \<longrightarrow> r = Inl DivisionByZero \<or> r = Inl InvalidOperation)
       \<and> (\<not> sum_list ins < sum_list outs \<and> int n - 1 \<le> int m \<and> m \<le> n \<and> n \<noteq> 1
            \<longrightarrow> (\<exists>ps. r = Inr ps) \<or> r = Inl (Unpairable Taker_fees_dont_add_up)
                \<or> (\<exists>cv. r = Inl (Unpairable (Unpairable_change_values cv))))"
proof -
  let ?cands = "gen_bucket_size_dist_pairs argsort
       (map nat [1 .. int (length ins) - int (count_list outs v) + 1]) dists"
  let ?st0 = "(ins, sort (filter (\<lambda>x. x \<noteq> v) outs),
       filter (\<lambda>x. x = v) outs, [] :: pair list, count_list outs v)"
  let ?fee = "sum_list ins - sum_list outs"
  have a: "r = Inl AssertionError"
    if "sum_list ins < sum_list outs \<or> \<not> (int n - 1 \<le> int m \<and> m \<le> n)"
    using that unfolding r_def pair_up_Some_unfold n_def m_def by auto
  have run: "r = (case pair_loop v ?cands ?st0 of Inl e \<Rightarrow> Inl e
             | Inr st' \<Rightarrow> pair_up_taker (count_list outs v) ?fee st')"
    if "\<not> sum_list ins < sum_list outs" "int n - 1 \<le> int m" "m \<le> n"
    using that unfolding r_def pair_up_Some_unfold n_def m_def by auto
  have b: "r = Inl DivisionByZero \<or> r = Inl InvalidOperation"
    if ok: "\<not> sum_list ins < sum_list outs" "int n - 1 \<le> int m" "m \<le> n" and n1: "n = 1"
  proof -
    have c: "count_list outs v = 1" using n1 by (simp add: n_def)
    have "pair_loop v ?cands ?st0 = Inr ?st0"
      by (subst pair_loop.simps) (simp add: c)
    moreover have "length (filter (\<lambda>x. x = v) outs) = 1"
      using c by (simp add: count_list_length_filter)
    ultimately show ?thesis
      unfolding run [OF ok] by (simp add: pair_up_taker_def c Let_def)
  qed
  have c: "(\<exists>ps. r = Inr ps) \<or> r = Inl (Unpairable Taker_fees_dont_add_up)
                \<or> (\<exists>cv. r = Inl (Unpairable (Unpairable_change_values cv)))"
    if ok: "\<not> sum_list ins < sum_list outs" "int n - 1 \<le> int m" "m \<le> n" and n1: "n \<noteq> 1"
  proof -
    obtain M where M: "\<forall>(bs, cm) \<in> set ?cands. cm < M"
      using cands_bound_exists by blast
    have inv0: "loop_inv v M (mset ins) (mset outs) (count_list outs v) ?st0"
      by (rule loop_inv_init)
    from pair_loop_no_error [OF inv0 M] obtain st' where st': "pair_loop v ?cands ?st0 = Inr st'"
      by blast
    obtain iv cv mv ps k where s: "st' = (iv, cv, mv, ps, k)" by (cases st')
    have inv: "loop_inv v M (mset ins) (mset outs) (count_list outs v) (iv, cv, mv, ps, k)"
      using pair_loop_inv [OF st' inv0 M] s by simp
    have "r = pair_up_taker (count_list outs v) ?fee (iv, cv, mv, ps, k)"
      using run [OF ok] st' s by simp
    moreover have "count_list outs v \<noteq> 1" using n1 by (simp add: n_def)
    ultimately show ?thesis
      using pair_up_taker_result [OF inv, of ?fee] by simp
  qed
  from a b c show ?thesis by blast
qed

text \<open>
  Claim C6, as amended. Let \<open>vm\<close> be the value that \<open>_pair_up_inout_values\<close> receives as
  \<open>value_mixed\<close> (the argument, or by default the most common output value when it occurs
  more than twice and more often than every other one, and \<open>None\<close> otherwise), \<open>n\<close> the
  number of outputs equal to it and \<open>m\<close> the number of the other outputs. Then
  \<open>pair_up_inout_values\<close>

  \<^item> raises \<open>IndexError\<close> when \<open>value_mixed\<close> is left to its default and there is no output;
  \<^item> otherwise raises \<open>AssertionError\<close> when the inputs sum to less than the outputs or \<open>m\<close>
    is neither \<open>n - 1\<close> nor \<open>n\<close>;
  \<^item> otherwise raises \<open>DivisionByZero\<close> or \<open>InvalidOperation\<close> when \<open>n = 1\<close>;
  \<^item> and otherwise returns a pairing or raises \<open>Unpairable\<close>, because the taker fees do not
    add up or because values are left unpaired.

  The indices that \<open>argsort\<close> returns are used to subscript the bucket sizes and the
  tolerances, so its contract is assumed.
\<close>

theorem pairing_failures:
  fixes in_values out_values :: "rat list" and argsort :: "rat list \<Rightarrow> nat list"
    and vmo :: "rat option"
  defines "r \<equiv> pair_up_inout_values argsort in_values out_values vmo"
  defines "vm \<equiv> (case vmo of
                    Some v \<Rightarrow> Some v
                  | None \<Rightarrow> (case get_value_mixed_from_values in_values out_values of
                               Inr (Some (v, k)) \<Rightarrow> Some v
                             | _ \<Rightarrow> None))"
  defines "n \<equiv> (case vm of Some v \<Rightarrow> count_list out_values v | None \<Rightarrow> 0)"
  defines "m \<equiv> (case vm of Some v \<Rightarrow> length (filter (\<lambda>x. x \<noteq> v) out_values)
                            | None \<Rightarrow> length out_values)"
  defines "no_outputs \<equiv> vmo = None \<and> out_values = []"
  defines "bad \<equiv> sum_list in_values < sum_list out_values \<or> \<not> (int n - 1 \<le> int m \<and> m \<le> n)"
  assumes contract: "\<forall>d. argsort_contract argsort d"
  shows "(no_outputs \<longrightarrow> r = Inl IndexError)
       \<and> (\<not> no_outputs \<and> bad \<longrightarrow> r = Inl AssertionError)
       \<and> (\<not> no_outputs \<and> \<not> bad \<and> n = 1 \<longrightarrow> r = Inl DivisionByZero \<or> r = Inl InvalidOperation)
       \<and> (\<not> no_outputs \<and> \<not> bad \<and> n \<noteq> 1 \<longrightarrow>
            (\<exists>ps. r = Inr ps) \<or> r = Inl (Unpairable Taker_fees_dont_add_up)
            \<or> (\<exists>cv. r = Inl (Unpairable (Unpairable_change_values cv))))"
proof (cases vmo)
  case (Some v)
  have "r = pair_up_inout_values' argsort in_values out_values (Some v)"
    by (simp add: r_def Some pair_up_inout_values_def)
  moreover have "vm = Some v" "\<not> no_outputs" by (simp_all add: vm_def no_outputs_def Some)
  ultimately show ?thesis
    using pair_up_Some_failures [of in_values out_values v argsort]
    unfolding bad_def n_def m_def by simp
next
  case None
  show ?thesis
  proof (cases "out_values = []")
    case True
    then have "r = Inl IndexError"
      by (simp add: r_def None pair_up_inout_values_def get_value_mixed_from_values_def
          most_common_1_def counter_keys_def)
    then show ?thesis using True None by (simp add: no_outputs_def)
  next
    case ne: False
    then have no: "\<not> no_outputs" by (simp add: no_outputs_def)
    obtain mx where mx: "get_value_mixed_from_values in_values out_values = Inr mx"
      using get_value_mixed_from_values_Inl [of in_values out_values] ne
      by (cases "get_value_mixed_from_values in_values out_values") auto
    have r: "r = pair_up_inout_values' argsort in_values out_values (map_option fst mx)"
      using mx by (simp add: r_def None pair_up_inout_values_def)
    show ?thesis
    proof (cases mx)
      case N: None
      have "0 < length (sort out_values)" using ne by simp
      then have "r = Inl AssertionError"
        unfolding r N by (simp add: pair_up_inout_values'_def Let_def)
      moreover have "vm = None" by (simp add: vm_def None mx N)
      then have bad using ne by (simp add: bad_def n_def m_def)
      ultimately show ?thesis using no by simp
    next
      case S: (Some vn)
      obtain v k where vn: "vn = (v, k)" by (cases vn)
      have "r = pair_up_inout_values' argsort in_values out_values (Some v)"
        using r S vn by simp
      moreover have "vm = Some v" by (simp add: vm_def None mx S vn)
      ultimately show ?thesis
        using pair_up_Some_failures [of in_values out_values v argsort] no
        unfolding bad_def n_def m_def by simp
    qed
  qed
qed


section \<open>The order of the candidates\<close>

lemma divmod_inj_on: "inj_on (\<lambda>k :: nat. (k div nd, k mod nd)) A"
proof (rule inj_onI)
  fix x y :: nat
  assume "(x div nd, x mod nd) = (y div nd, y mod nd)"
  then have "x div nd = y div nd" "x mod nd = y mod nd" by simp_all
  then show "x = y" by (metis div_mult_mod_eq)
qed

lemma argsort_contract_distinct:
  "argsort_contract argsort d \<Longrightarrow> distinct (argsort d)"
  by (metis argsort_contract_def distinct_upt mset_eq_imp_distinct_iff)

lemma set_gen_idx_pairs:
  assumes "argsort_contract argsort (penalty_matrix nb nd)"
  shows "set (gen_idx_pairs argsort nb nd) = {0..<nb} \<times> {0..<nd}"
proof (rule set_eqI)
  fix p :: "nat \<times> nat"
  obtain i j where p: "p = (i, j)" by (cases p)
  show "p \<in> set (gen_idx_pairs argsort nb nd) \<longleftrightarrow> p \<in> {0..<nb} \<times> {0..<nd}"
  proof
    assume "p \<in> set (gen_idx_pairs argsort nb nd)"
    then show "p \<in> {0..<nb} \<times> {0..<nd}"
      using gen_idx_pairs_in_range [OF assms, of i j] p by simp
  next
    assume "p \<in> {0..<nb} \<times> {0..<nd}"
    then have i: "i < nb" and j: "j < nd" using p by simp_all
    have "i * nd + j < i * nd + nd" using j by simp
    also have "\<dots> = Suc i * nd" by simp
    also have "\<dots> \<le> nb * nd" using i by (intro mult_le_mono1) simp
    finally have "i * nd + j < nb * nd" .
    then have "i * nd + j \<in> set (argsort (penalty_matrix nb nd))"
      using argsort_contract_set [OF assms] by (simp add: length_penalty_matrix)
    moreover have "(i * nd + j) div nd = i" "(i * nd + j) mod nd = j" using j by simp_all
    ultimately show "p \<in> set (gen_idx_pairs argsort nb nd)"
      unfolding gen_idx_pairs_def p by force
  qed
qed

lemma penalties_of_gen_idx_pairs:
  assumes "argsort_contract argsort (penalty_matrix nb nd)"
  shows "map (\<lambda>(i, j). penalty i j) (gen_idx_pairs argsort nb nd)
       = map ((!) (penalty_matrix nb nd)) (argsort (penalty_matrix nb nd))"
proof -
  have "penalty (k div nd) (k mod nd) = penalty_matrix nb nd ! k"
    if "k \<in> set (argsort (penalty_matrix nb nd))" for k
  proof -
    have "k < nb * nd"
      using that argsort_contract_set [OF assms] by (simp add: length_penalty_matrix)
    then show ?thesis by (simp add: nth_penalty_matrix)
  qed
  then show ?thesis by (simp add: gen_idx_pairs_def)
qed

lemma bucket_sizes_nth: "i < m \<Longrightarrow> map nat [1 .. int m] ! i = i + 1"
  by simp

text \<open>
  Claim C7, as amended: when \<open>argsort\<close> meets its contract, \<open>gen_bucket_size_dist_pairs\<close>, called
  with the bucket sizes \<open>1, \<dots>, m\<close>, yields every pair of a bucket size and a tolerance once,
  in ascending order of the cost \<open>penalty\<close>, which is the float value of
  \<open>(bucketSize - 1)\<^sup>2 + 0.1 * toleranceIndex\<^sup>2\<close>: the cost is computed from the index of the
  bucket size, one less than the size.
\<close>

theorem candidates_in_penalty_order:
  assumes "argsort_contract argsort (penalty_matrix m (length ds))"
  shows "gen_bucket_size_dist_pairs argsort (map nat [1 .. int m]) ds
           = map (\<lambda>(i, j). (i + 1, ds ! j)) (gen_idx_pairs argsort m (length ds))
       \<and> sorted (map (\<lambda>(i, j). penalty i j) (gen_idx_pairs argsort m (length ds)))
       \<and> distinct (gen_idx_pairs argsort m (length ds))
       \<and> set (gen_idx_pairs argsort m (length ds)) = {0..<m} \<times> {0..<length ds}"
proof -
  let ?idx = "gen_idx_pairs argsort m (length ds)"
  have len: "length (map nat [1 .. int m]) = m" by simp
  have "(case p of (i, j) \<Rightarrow> (map nat [1 .. int m] ! i, ds ! j))
      = (case p of (i, j) \<Rightarrow> (i + 1, ds ! j))" if "p \<in> set ?idx" for p
  proof -
    obtain i j where p: "p = (i, j)" by (cases p)
    have "i < m" using gen_idx_pairs_in_range [OF assms, of i j] that p by simp
    then show ?thesis using p bucket_sizes_nth by simp
  qed
  then have 1: "gen_bucket_size_dist_pairs argsort (map nat [1 .. int m]) ds
           = map (\<lambda>(i, j). (i + 1, ds ! j)) ?idx"
    unfolding gen_bucket_size_dist_pairs_def len by (intro map_cong) simp_all
  have 2: "sorted (map (\<lambda>(i, j). penalty i j) ?idx)"
    unfolding penalties_of_gen_idx_pairs [OF assms]
    using assms by (simp add: argsort_contract_def)
  have 3: "distinct ?idx"
    unfolding gen_idx_pairs_def
    using argsort_contract_distinct [OF assms] divmod_inj_on by (simp add: distinct_map)
  from 1 2 3 set_gen_idx_pairs [OF assms] show ?thesis by blast
qed


section \<open>The lookups of \<open>extract_maker_addresses_from_tx\<close>\<close>

lemma list_index_None: "list_index xs v = None \<longleftrightarrow> v \<notin> set xs"
  by (induction xs) auto

lemma list_index_Some: "list_index xs v = Some i \<Longrightarrow> i < length xs \<and> xs ! i = v"
  by (induction xs arbitrary: i) (auto split: if_splits)

lemma mset_mark_used:
  assumes "i < length xs" "xs ! i = Some v"
  shows "mset (xs[i := None]) = add_mset None (mset xs - {#Some v#})"
  using assms by (simp add: mset_update)

lemma extract_loop_lookup:
  assumes "mset (map Some values) \<subseteq># mset vin_vals"
  shows "extract_loop chain vins values (vin_vals, A) \<noteq> Inl ValueError
       \<and> (\<forall>vs B. extract_loop chain vins values (vin_vals, A) = Inr (vs, B) \<longrightarrow>
            mset vs = mset vin_vals - mset (map Some values)
                      + replicate_mset (length values) None)"
  using assms
proof (induction "values" arbitrary: vin_vals A)
  case Nil
  then show ?case by simp
next
  case (Cons v "values")
  have sub: "add_mset (Some v) (mset (map Some values)) \<subseteq># mset vin_vals"
    using Cons.prems by simp
  then have "Some v \<in># mset vin_vals" by (meson insert_subset_eq_iff)
  then have "Some v \<in> set vin_vals" by simp
  then obtain i where i: "list_index vin_vals (Some v) = Some i"
    using list_index_None [of vin_vals "Some v"] by (cases "list_index vin_vals (Some v)") auto
  from list_index_Some [OF i] have il: "i < length vin_vals" "vin_vals ! i = Some v" by simp_all
  let ?vv = "vin_vals[i := None]"
  have ms: "mset ?vv = add_mset None (mset vin_vals - {#Some v#})"
    using il by (rule mset_mark_used)
  have rest: "mset (map Some values) \<subseteq># mset vin_vals - {#Some v#}"
    using sub by (simp add: insert_subset_eq_iff)
  have "mset vin_vals - {#Some v#} \<subseteq># add_mset None (mset vin_vals - {#Some v#})"
    by simp
  with rest have sub': "mset (map Some values) \<subseteq># mset ?vv"
    unfolding ms by (rule subset_mset.order_trans)
  let ?A = "A \<union> set (get_vout_addresses (chain (vins ! i)))"
  note IH = Cons.IH [OF sub', of ?A]
  have nn: "None \<notin># mset (map Some values)" by auto
  have eq: "mset ?vv - mset (map Some values) + replicate_mset (length values) None
          = mset vin_vals - mset (map Some (v # values))
            + replicate_mset (length (v # values)) None"
  proof -
    have "mset ?vv - mset (map Some values)
        = add_mset None (mset vin_vals - {#Some v#} - mset (map Some values))"
      unfolding ms using nn by (rule diff_add_mset_swap)
    also have "mset vin_vals - {#Some v#} - mset (map Some values)
        = mset vin_vals - mset (map Some (v # values))"
      by simp
    finally show ?thesis by simp
  qed
  show ?case
  proof (cases "\<exists>addr \<in> set (get_vout_addresses (chain (vins ! i))).
                  \<not> (30 \<le> length addr \<and> length addr \<le> 36)")
    case True
    then have "extract_loop chain vins (v # values) (vin_vals, A) = Inl AssertionError"
      using i by (simp add: Let_def)
    then show ?thesis by simp
  next
    case False
    then have "extract_loop chain vins (v # values) (vin_vals, A)
        = extract_loop chain vins values (?vv, ?A)"
      using i by (simp add: Let_def)
    then show ?thesis using IH unfolding eq by simp
  qed
qed

text \<open>
  Claim C10: when the pairing of a transaction was returned by \<open>pair_up_inout_values\<close> on its
  input values, the input values of the maker groups form a sub-multiset of the input values
  of the transaction, and the loop of \<open>extract_maker_addresses_from_tx\<close> never raises
  \<open>ValueError\<close> at \<open>vin_values.index(value)\<close>. When the loop completes, the list \<open>vin_values\<close>
  has lost one entry for each maker input value and gained as many \<open>None\<close>: every lookup
  found an entry of its own.
\<close>

theorem maker_inputs_found:
  fixes j :: "'a jmtx_scheme"
  assumes "pair_up_inout_values argsort (vin_values chain j) out_values vmo = Inr (pairs j)"
  shows "mset (concat (map fst (maker_value_pairs j))) \<subseteq># mset (vin_values chain j)
       \<and> extract_loop chain (vin j) (concat (map fst (maker_value_pairs j)))
            (map Some (vin_values chain j), {}) \<noteq> Inl ValueError
       \<and> extract_maker_addresses_from_tx chain j \<noteq> Inl ValueError
       \<and> (\<forall>vs A. extract_loop chain (vin j) (concat (map fst (maker_value_pairs j)))
                    (map Some (vin_values chain j), {}) = Inr (vs, A) \<longrightarrow>
            mset vs = mset (map Some (vin_values chain j))
                      - mset (map Some (concat (map fst (maker_value_pairs j))))
                      + replicate_mset (length (concat (map fst (maker_value_pairs j)))) None)"
proof -
  let ?mi = "concat (map fst (maker_value_pairs j))"
  have sub: "mset ?mi \<subseteq># mset (vin_values chain j)"
    using assms
  proof (cases rule: pairing_shape)
    case empty
    then show ?thesis by (simp add: maker_value_pairs_def)
  next
    case (paired v iv cv ps M)
    have tk: "fee_paid_to_pair (iv, v # cv) < 0"
      using paired(4,5,8) by (rule taker_pays)
    have mk: "\<forall>p \<in> set ps. 0 < fee_paid_to_pair p"
      using loop_inv_makers(1) [OF paired(6)] MIN_JM_FEE_pos by (meson order_less_trans)
    have "maker_value_pairs j = ps" using paired(1) tk mk by (rule views_of_pairing)
    then show ?thesis using loop_inv_msets(1) [OF paired(6)] by (metis mset_subset_eq_add_right)
  qed
  then have "mset (map Some ?mi) \<subseteq># mset (map Some (vin_values chain j))"
    by (simp add: image_mset_subseteq_mono)
  from extract_loop_lookup [OF this, of chain "vin j" "{}"]
  have l: "extract_loop chain (vin j) ?mi (map Some (vin_values chain j), {}) \<noteq> Inl ValueError"
    and r: "\<forall>vs A. extract_loop chain (vin j) ?mi (map Some (vin_values chain j), {}) = Inr (vs, A) \<longrightarrow>
            mset vs = mset (map Some (vin_values chain j)) - mset (map Some ?mi)
                      + replicate_mset (length ?mi) None"
    by blast+
  have "extract_maker_addresses_from_tx chain j \<noteq> Inl ValueError"
    using l by (auto simp: extract_maker_addresses_from_tx_def split: sum.splits)
  with sub l r show ?thesis by blast
qed


section \<open>The unmix level of a marked transaction\<close>

lemma to_joinmarket_tx_Inr:
  assumes "to_joinmarket_tx argsort chain t = Inr jm"
  obtains ps v cnt where "jm = JoinMarketTx t ps"
    and "pair_up_inout_values argsort (vin_values chain t) (vout_values t) None = Inr ps"
    and "get_value_mixed chain t = Inr (Some (v, cnt))"
proof -
  obtain ok desc where c: "check_potential_joinmarket_tx chain t = Inr (ok, desc)"
    using assms by (auto simp: to_joinmarket_tx_def split: sum.splits)
  have ok: ok using assms c by (auto simp: to_joinmarket_tx_def split: if_splits)
  then obtain ps where ps: "pair_up_inout_values argsort (vin_values chain t) (vout_values t) None = Inr ps"
    and jm: "jm = JoinMarketTx t ps"
    using assms c by (auto simp: to_joinmarket_tx_def split: sum.splits)
  have "\<exists>v cnt. get_value_mixed chain t = Inr (Some (v, cnt))"
  proof (cases "get_value_mixed chain t")
    case (Inl e)
    then show ?thesis
      using c ok by (simp add: check_potential_joinmarket_tx_def Let_def split: if_splits)
  next
    case (Inr r)
    show ?thesis
    proof (cases r)
      case None
      then show ?thesis
        using c ok Inr by (simp add: check_potential_joinmarket_tx_def Let_def split: if_splits)
    next
      case (Some a)
      then show ?thesis using Inr by (cases a) simp
    qed
  qed
  then show thesis using that jm ps by blast
qed

lemma count_concat_snd:
  assumes "\<forall>q \<in> set ps. snd q = [v, c]" and "c \<noteq> v"
  shows "count (mset (concat (map snd ps))) c = length ps"
  using assms by (induction ps) auto

lemma value_mixed_of_pairing:
  fixes j :: "'a jmtx_scheme"
  assumes p: "pairs j = (iv, v # cv) # ps"
    and inv: "loop_inv v M A (mset outs) N (iv, cv, [v], ps, 1)"
    and cnt: "\<forall>w. w \<noteq> v \<longrightarrow> count_list outs w < N"
  shows "value_mixed j = Inr v"
proof -
  have nv: "v \<notin> set cv" and len: "length ps + 1 = N"
    and ms: "mset cv + mset [v] + mset (concat (map snd ps)) = mset outs"
    and sh: "\<forall>q \<in> set ps. \<exists>c. c \<noteq> v \<and> snd q = [v, c]"
    using inv unfolding loop_inv_def prod.case by blast+
  have all_v: "\<forall>q \<in> set ps. v \<in> set (snd q)" using sh by auto
  have none: "\<not> (\<forall>q \<in> set ps. c \<in> set (snd q))" if c: "c \<in> set cv" for c
  proof
    assume a: "\<forall>q \<in> set ps. c \<in> set (snd q)"
    have cv: "c \<noteq> v" using c nv by auto
    have "\<forall>q \<in> set ps. snd q = [v, c]"
    proof
      fix q assume q: "q \<in> set ps"
      then obtain c' where "c' \<noteq> v" "snd q = [v, c']" using sh by blast
      moreover have "c \<in> set (snd q)" using a q by blast
      ultimately show "snd q = [v, c]" using cv by auto
    qed
    then have a1: "count (mset (concat (map snd ps))) c = length ps"
      using cv by (rule count_concat_snd)
    have a2: "1 \<le> count (mset cv) c" using c by (simp add: Suc_le_eq)
    have a3: "count (mset outs) c
        = count (mset cv) c + count (mset [v]) c + count (mset (concat (map snd ps))) c"
      unfolding ms [symmetric] by simp
    have "N \<le> count (mset outs) c" using a1 a2 a3 len by linarith
    then have "N \<le> count_list outs c" by (simp add: count_mset)
    then show False using cnt cv by (simp add: not_less [symmetric])
  qed
  have "filter (\<lambda>x. \<forall>q \<in> set ps. x \<in> set (snd q)) (remdups cv) = []"
    using none by (simp add: filter_empty_conv)
  then have "filter (\<lambda>x. \<forall>q \<in> set ps. x \<in> set (snd q)) (remdups (v # cv)) = [v]"
    using nv all_v by simp
  then show ?thesis by (simp add: value_mixed_def p)
qed

lemma length_filter_vout_value:
  "length (filter (\<lambda>vo. vout_value vo = v) vs) = count_list (map vout_value vs) v"
  by (induction vs) simp_all

lemma unmix_quotient:
  fixes P U :: nat
  assumes "3 \<le> P" "0 < U" "U \<le> P"
  shows "(of_int (int P - int U) :: rat) / of_int (int P - 1) = of_nat (P - U) / of_nat (P - 1)"
    and "0 \<le> (of_nat (P - U) :: rat) / of_nat (P - 1)"
    and "(of_nat (P - U) :: rat) / of_nat (P - 1) \<le> 1"
proof -
  have e1: "int P - int U = int (P - U)" using assms(3) by (simp only: of_nat_diff)
  have "1 \<le> P" using assms(1) by linarith
  then have e2: "int P - 1 = int (P - 1)" by (simp only: of_nat_diff of_nat_1)
  show "(of_int (int P - int U) :: rat) / of_int (int P - 1) = of_nat (P - U) / of_nat (P - 1)"
    by (simp only: e1 e2 of_int_of_nat_eq)
  show "0 \<le> (of_nat (P - U) :: rat) / of_nat (P - 1)"
    by (rule divide_nonneg_nonneg) (simp_all only: of_nat_0_le_iff)
  have "P - U \<le> P - 1" using assms by linarith
  then have le: "(of_nat (P - U) :: rat) \<le> of_nat (P - 1)" by (simp only: of_nat_le_iff)
  have "0 < P - 1" using assms(1) by linarith
  then have pos: "(0 :: rat) < of_nat (P - 1)" by (simp only: of_nat_0_less_iff)
  show "(of_nat (P - U) :: rat) / of_nat (P - 1) \<le> 1"
    using le by (simp only: divide_le_eq_1_pos [OF pos])
qed

text \<open>
  Claim C3: let \<open>j\<close> be a transaction returned by \<open>to_joinmarket_tx\<close> and marked with maker
  addresses, \<open>P\<close> its number of parties, \<open>v\<close> its mix value, and \<open>U\<close> the number of outputs of
  value \<open>v\<close> none of whose addresses is a maker address. Then the outputs of value \<open>v\<close> are \<open>P\<close>,
  at least 3, and \<open>U \<le> P\<close>; \<open>unmix_level\<close> is \<open>None\<close> if and only if \<open>U = 0\<close>, and never 0 in
  place of \<open>None\<close>; otherwise it is the float quotient \<open>(P - U) / (P - 1)\<close>, which lies between
  0 and 1.
\<close>

theorem unmix_level_of_marked_tx:
  fixes t :: tx and addrs :: "address list"
  assumes "to_joinmarket_tx argsort chain t = Inr jm"
  defines "j \<equiv> UnmixedJoinMarketTx jm addrs"
  defines "P \<equiv> num_parties j"
  shows "\<exists>v U. value_mixed j = Inr v
          \<and> get_value_mixed chain t = Inr (Some (v, P))
          \<and> mixed_vouts j = Inr (filter (\<lambda>vo. vout_value vo = v) (vout t))
          \<and> length (filter (\<lambda>vo. vout_value vo = v) (vout t)) = P
          \<and> 3 \<le> P
          \<and> possible_taker_mixed_vouts j
              = Inr (filter (\<lambda>vo. vout_value vo = v
                              \<and> maker_addresses j \<inter> set (get_vout_addresses vo) = {}) (vout t))
          \<and> maker_addresses j = set addrs
          \<and> U = length (filter (\<lambda>vo. vout_value vo = v
                              \<and> maker_addresses j \<inter> set (get_vout_addresses vo) = {}) (vout t))
          \<and> U \<le> P
          \<and> (unmix_level j = Inr None \<longleftrightarrow> U = 0)
          \<and> (0 < U \<longrightarrow>
                unmix_level j = Inr (Some (fl (of_nat (P - U) / of_nat (P - 1))))
                \<and> 0 \<le> fl (of_nat (P - U) / of_nat (P - 1))
                \<and> fl (of_nat (P - U) / of_nat (P - 1)) \<le> 1)"
proof -
  from assms(1) obtain res v0 cnt where jm: "jm = JoinMarketTx t res"
    and run: "pair_up_inout_values argsort (vin_values chain t) (vout_values t) None = Inr res"
    and gv: "get_value_mixed chain t = Inr (Some (v0, cnt))"
    by (rule to_joinmarket_tx_Inr)
  have pj: "pairs j = res" and vj: "vout j = vout t" and mj: "maker_addresses j = set addrs"
    by (simp_all add: j_def jm UnmixedJoinMarketTx_def JoinMarketTx_def)
  from run show ?thesis
  proof (cases rule: pairing_shape)
    case empty
    then show ?thesis by simp
  next
    case (paired v iv cv ps M)
    let ?outs = "vout_values t"
    let ?N = "count_list ?outs v"
    have g: "get_value_mixed_from_values (vin_values chain t) ?outs = Inr (Some (v, ?N))"
      using paired(3) by simp
    have v0: "v0 = v" "cnt = ?N" using gv g by (auto simp: get_value_mixed_def)
    from get_value_mixed_from_values_Some [OF g]
    have N3: "3 \<le> ?N" and cw: "\<forall>w. w \<noteq> v \<longrightarrow> count_list ?outs w < ?N" by blast+
    have len: "length ps + 1 = ?N" using loop_inv_msets(3) [OF paired(6)] .
    have P: "P = ?N" using len by (simp add: P_def num_parties_def pj paired(1))
    have vm: "value_mixed j = Inr v"
      using pj [unfolded paired(1)] paired(6) cw by (rule value_mixed_of_pairing)
    have ne: "vout j \<noteq> []"
    proof
      assume "vout j = []"
      then have "?N = 0" by (simp add: vj vout_values_def)
      then show False using N3 by simp
    qed
    let ?mixed = "filter (\<lambda>vo. vout_value vo = v) (vout t)"
    let ?poss = "filter (\<lambda>vo. vout_value vo = v
                      \<and> maker_addresses j \<inter> set (get_vout_addresses vo) = {}) (vout t)"
    let ?U = "length ?poss"
    have mvs: "mixed_vouts j = Inr ?mixed" using ne vm by (simp add: mixed_vouts_def vj)
    have lm: "length ?mixed = P"
      unfolding P by (simp add: length_filter_vout_value vout_values_def)
    have pt: "possible_taker_mixed_vouts j = Inr ?poss"
      by (simp add: possible_taker_mixed_vouts_def mvs)
    have "?poss = filter (\<lambda>vo. maker_addresses j \<inter> set (get_vout_addresses vo) = {}) ?mixed"
      by simp
    then have UP: "?U \<le> P" using lm by (metis length_filter_le)
    have P3: "3 \<le> P" using N3 P by simp
    have ul0: "unmix_level j = Inr None \<longleftrightarrow> ?U = 0"
      using P3 by (simp add: unmix_level_def pt Let_def)
    have ul: "unmix_level j = Inr (Some (fl (of_nat (P - ?U) / of_nat (P - 1))))
                \<and> 0 \<le> fl (of_nat (P - ?U) / of_nat (P - 1))
                \<and> fl (of_nat (P - ?U) / of_nat (P - 1)) \<le> 1" if U: "0 < ?U"
    proof -
      note q = unmix_quotient [OF P3 U UP]
      have "int (num_parties j) - 1 \<noteq> 0" using P3 by (simp add: P_def)
      then have "unmix_level j
          = Inr (Some (fl (of_int (int P - int ?U) / of_int (int P - 1))))"
        using U by (simp add: unmix_level_def pt Let_def P_def)
      then have "unmix_level j = Inr (Some (fl (of_nat (P - ?U) / of_nat (P - 1))))"
        unfolding q(1) .
      moreover have "0 \<le> fl (of_nat (P - ?U) / of_nat (P - 1))"
        using q(2) by (simp only: fl_nonneg_iff)
      moreover have "fl (of_nat (P - ?U) / of_nat (P - 1)) \<le> 1"
        using q(2,3) by (rule fl_le_1)
      ultimately show ?thesis by blast
    qed
    have gv': "get_value_mixed chain t = Inr (Some (v, P))" using gv v0 P by simp
    from vm gv' mvs lm P3 pt mj UP ul0 ul show ?thesis by blast
  qed
qed


subsection \<open>The constants and the example, evaluated\<close>

lemma MIN_JM_FEE_eq [code]: "MIN_JM_FEE = 4722366482869645 / 2 ^ 72"
  unfolding MIN_JM_FEE_def by code_simp

lemma MAX_JM_FEE_eq [code]: "MAX_JM_FEE = 1080863910568919 / 2 ^ 55"
  unfolding MAX_JM_FEE_def by code_simp

lemma DIST_PENALTY_FACTOR_eq [code]: "DIST_PENALTY_FACTOR = 3602879701896397 / 2 ^ 55"
  unfolding DIST_PENALTY_FACTOR_def by code_simp

lemma dists_eq: "dists = map (\<lambda>k. MIN_JM_FEE * 2 ^ k) [4..<15]"
  by code_simp

lemma length_dists: "length dists = 11"
  by (simp add: dists_eq)

lemma example_penalty_matrix: "penalty_matrix 2 11 = example_penalties"
  by code_simp

lemma example_argsort:
  "argsort_stable example_penalties
     = [0, 1, 2, 3, 11, 12, 13, 4, 14, 5, 15, 16, 6, 17, 7, 18, 8, 19, 9, 20, 10, 21]"
  by (simp add: argsort_stable_def example_penalties_def upt_rec [of _ 22] upt_rec [of _ 21])

lemma example_gen_idx_pairs: "gen_idx_pairs argsort_stable 2 11 = example_idx_pairs"
  unfolding gen_idx_pairs_def example_penalty_matrix example_argsort
  by (simp add: example_idx_pairs_def)

lemma example_gen_cands: "gen_bucket_size_dist_pairs argsort_stable [1, 2] dists = example_cands"
proof -
  have l2: "length [1 :: nat, 2] = 2" by simp
  show ?thesis
    unfolding gen_bucket_size_dist_pairs_def l2 length_dists example_gen_idx_pairs
    by (simp add: dists_eq example_cands_def example_idx_pairs_def)
qed

lemma example_loop:
  "pair_loop 1 example_cands
     (example_in_values, [1997 / 10000, 5001 / 10000, 15001 / 10000], [1, 1, 1], [], 3)
   = Inr ([7 / 10, 1 / 2], [1997 / 10000], [1],
          [([3 / 2], [1, 5001 / 10000]), ([5 / 2], [1, 15001 / 10000])], 1)"
  by code_simp

lemma example_taker:
  "pair_up_taker 3 (1 / 10000)
     ([7 / 10, 1 / 2], [1997 / 10000], [1],
      [([3 / 2], [1, 5001 / 10000]), ([5 / 2], [1, 15001 / 10000])], 1) = Inr example_pairs"
  by code_simp

lemma example_mix:
  "get_value_mixed_from_values example_in_values example_out_values = Inr (Some (1, 3))"
  by code_simp

lemma example_run:
  "pair_up_inout_values argsort_stable example_in_values example_out_values None = Inr example_pairs"
proof -
  have f1: "filter (\<lambda>v. Some v = Some 1) example_out_values = [1, 1, 1]"
    by (simp add: example_out_values_def)
  have f2: "sort (filter (\<lambda>v. Some v \<noteq> Some 1) example_out_values)
      = [1997 / 10000, 5001 / 10000, 15001 / 10000]"
    by (simp add: example_out_values_def)
  have l3: "length [1 :: rat, 1, 1] = 3" by simp
  have bs: "map nat [1 .. int (length example_in_values) - int 3 + 1] = [1, 2]"
    by (simp add: example_in_values_def upto.simps)
  have fee: "sum_list example_in_values - sum_list example_out_values = 1 / 10000"
    by (simp add: example_in_values_def example_out_values_def)
  have "pair_up_inout_values' argsort_stable example_in_values example_out_values (Some 1)
      = Inr example_pairs"
    unfolding pair_up_inout_values'_def Let_def f1 f2 l3 fee bs example_gen_cands option.case
      example_loop sum.case example_taker
    by simp
  then show ?thesis
    by (simp add: pair_up_inout_values_def example_mix)
qed

lemma example_vin_values: "vin_values example_chain example_tx = example_in_values"
  by code_simp

lemma example_vout_values: "vout_values example_tx = example_out_values"
  by code_simp

lemma example_classified:
  "check_potential_joinmarket_tx example_chain example_tx = Inr (True, [])"
  by code_simp

lemma example_jmtx:
  "to_joinmarket_tx argsort_stable example_chain example_tx
     = Inr (JoinMarketTx example_tx example_pairs)"
  unfolding to_joinmarket_tx_def example_classified example_vin_values example_vout_values
    example_run
  by simp

lemma argsort_stable_contract: "argsort_contract argsort_stable d"
proof -
  let ?z = "zip d [0..<length d]"
  have "mset (map snd (sort_key fst ?z)) = mset (map snd ?z)"
    by (metis mset_map mset_sort)
  then have m: "mset (argsort_stable d) = mset [0..<length d]"
    by (simp add: argsort_stable_def)
  have "\<forall>p \<in> set (sort_key fst ?z). d ! snd p = fst p"
    by (auto simp: set_zip)
  then have e: "map ((!) d) (map snd (sort_key fst ?z)) = map fst (sort_key fst ?z)"
    by simp
  have "sorted (map fst (sort_key fst ?z))" by (rule sorted_sort_key)
  then have "sorted (map ((!) d) (argsort_stable d))"
    unfolding argsort_stable_def e .
  with m show ?thesis by (simp add: argsort_contract_def)
qed


section \<open>The classifier on small transactions\<close>

text \<open>
  Claim C9, as amended: a transaction with two inputs and two outputs is rejected, and the
  reason is \<open>MIN_NUM_OUTPUTS\<close>, because the number of outputs is tested before the number
  of inputs.
\<close>

theorem two_inputs_two_outputs_rejected:
  "length (vin t) = 2 \<Longrightarrow> length (vout t) = 2 \<Longrightarrow>
   check_potential_joinmarket_tx chain t = Inr (False, ''MIN_NUM_OUTPUTS'')"
  by (simp add: check_potential_joinmarket_tx_def MIN_NUM_OUTPUTS_def)

theorem two_inputs_two_outputs_rejected_witness:
  "length (vin small_tx) = 2 \<and> length (vout small_tx) = 2
   \<and> check_potential_joinmarket_tx example_chain small_tx = Inr (False, ''MIN_NUM_OUTPUTS'')"
proof -
  have l: "length (vin small_tx) = 2" "length (vout small_tx) = 2"
    by (simp_all add: small_tx_def)
  from two_inputs_two_outputs_rejected [OF l, of example_chain] l show ?thesis by simp
qed

text \<open>
  The claim as stated fails on \<open>small_tx\<close>: its reason is not \<open>MIN_NUM_INPUTS\<close>.
\<close>

theorem small_tx_reason_is_not_inputs:
  "length (vin small_tx) = 2 \<and> length (vout small_tx) = 2
   \<and> check_potential_joinmarket_tx example_chain small_tx \<noteq> Inr (False, ''MIN_NUM_INPUTS'')"
  by (simp add: check_potential_joinmarket_tx_def MIN_NUM_OUTPUTS_def small_tx_def)

section \<open>Scenario A\<close>

lemma scenario_a_mix:
  "get_value_mixed_from_values scenario_a_in_values scenario_a_out_values = Inr (Some (1, 5))"
  by code_simp

text \<open>
  Claim C8, as amended: on the value lists of Scenario A the outputs sum to 5.396 and the
  inputs to 5.25, so the assertion \<open>txfee >= 0\<close> fails and the pairing algorithm raises
  \<open>AssertionError\<close>, whatever order \<open>argsort\<close> returns.
\<close>

theorem scenario_a_fails:
  "pair_up_inout_values argsort scenario_a_in_values scenario_a_out_values None
     = Inl AssertionError"
proof -
  have "sum_list scenario_a_in_values - sum_list scenario_a_out_values < 0"
    by (simp add: scenario_a_in_values_def scenario_a_out_values_def)
  then have "pair_up_inout_values' argsort scenario_a_in_values scenario_a_out_values (Some 1)
      = Inl AssertionError"
    by (simp add: pair_up_inout_values'_def Let_def)
  then show ?thesis by (simp add: pair_up_inout_values_def scenario_a_mix)
qed

text \<open>The claim as stated fails: the run on Scenario A returns no pairing.\<close>

theorem scenario_a_has_no_pairing:
  "\<not> (\<exists>ps. pair_up_inout_values argsort_stable scenario_a_in_values scenario_a_out_values None
            = Inr ps)"
proof -
  have "sum_list scenario_a_in_values - sum_list scenario_a_out_values < 0"
    by (simp add: scenario_a_in_values_def scenario_a_out_values_def)
  then have "pair_up_inout_values' argsort_stable scenario_a_in_values scenario_a_out_values (Some 1)
      = Inl AssertionError"
    by (simp add: pair_up_inout_values'_def Let_def)
  then show ?thesis by (simp add: pair_up_inout_values_def scenario_a_mix)
qed

section \<open>The example, as a witness\<close>

lemma example_pairs_of: "pairs (JoinMarketTx example_tx example_pairs) = example_pairs"
  by (simp add: JoinMarketTx_def)

theorem pairing_preserves_values_witness:
  "pair_up_inout_values argsort_stable example_in_values example_out_values None = Inr example_pairs
   \<and> mset (concat (map fst example_pairs)) = mset example_in_values
   \<and> mset (concat (map snd example_pairs)) = mset example_out_values"
  using pairing_preserves_values [OF example_run] example_run by simp

theorem maker_fees_in_band_witness:
  "pair_up_inout_values argsort_stable example_in_values example_out_values None
     = Inr (pairs (JoinMarketTx example_tx example_pairs))
   \<and> tl (pairs (JoinMarketTx example_tx example_pairs))
       = [([3 / 2], [1, 5001 / 10000]), ([5 / 2], [1, 15001 / 10000])]
   \<and> MIN_JM_FEE < fee_paid_to_pair ([3 / 2], [1, 5001 / 10000])
   \<and> fee_paid_to_pair ([3 / 2], [1, 5001 / 10000]) < MAX_JM_FEE
   \<and> MIN_JM_FEE < fee_paid_to_pair ([5 / 2], [1, 15001 / 10000])
   \<and> fee_paid_to_pair ([5 / 2], [1, 15001 / 10000]) < MAX_JM_FEE
   \<and> maker_value_pairs (JoinMarketTx example_tx example_pairs)
       = [([3 / 2], [1, 5001 / 10000]), ([5 / 2], [1, 15001 / 10000])]"
proof -
  have run: "pair_up_inout_values argsort_stable example_in_values example_out_values None
     = Inr (pairs (JoinMarketTx example_tx example_pairs))"
    by (simp add: example_run example_pairs_of)
  have c: "\<forall>d. argsort_contract argsort_stable d"
    by (simp add: argsort_stable_contract)
  have t: "tl (pairs (JoinMarketTx example_tx example_pairs))
       = [([3 / 2], [1, 5001 / 10000]), ([5 / 2], [1, 15001 / 10000])]"
    by (simp add: JoinMarketTx_def example_pairs_def)
  from maker_fees_in_band [OF run c] show ?thesis
    unfolding t using run t by simp
qed

text \<open>
  The claim C5 as stated fails on empty lists with an explicit \<open>value_mixed\<close>: the run
  succeeds with the empty pairing, which has no group at all, and \<open>taker_value_pair\<close> of a
  transaction with this pairing raises \<open>IndexError\<close>.
\<close>

theorem empty_pairing_has_no_taker:
  "pair_up_inout_values argsort_stable [] [] (Some 1) = Inr []
   \<and> pairs (JoinMarketTx small_tx []) = []
   \<and> taker_value_pair (JoinMarketTx small_tx []) = Inl IndexError"
proof -
  have "pair_up_inout_values argsort_stable [] [] (Some 1) = Inr []"
    by (simp add: pair_up_inout_values_def pair_up_inout_values'_def Let_def pair_up_taker_def
        pair_loop.simps)
  then show ?thesis by (simp add: JoinMarketTx_def taker_value_pair_def)
qed

theorem one_taker_group_witness:
  "pair_up_inout_values argsort_stable example_in_values example_out_values None
     = Inr (pairs (JoinMarketTx example_tx example_pairs))
   \<and> taker_value_pair (JoinMarketTx example_tx example_pairs) = Inr ([7 / 10, 1 / 2], [1, 1997 / 10000])
   \<and> fee_paid_to_pair ([7 / 10, 1 / 2], [1, 1997 / 10000]) < 0
   \<and> filter (\<lambda>p. fee_paid_to_pair p < 0) (pairs (JoinMarketTx example_tx example_pairs))
       = [([7 / 10, 1 / 2], [1, 1997 / 10000])]
   \<and> maker_value_pairs (JoinMarketTx example_tx example_pairs)
       = [([3 / 2], [1, 5001 / 10000]), ([5 / 2], [1, 15001 / 10000])]"
proof -
  have run: "pair_up_inout_values argsort_stable example_in_values example_out_values None
     = Inr (pairs (JoinMarketTx example_tx example_pairs))"
    by (simp add: example_run example_pairs_of)
  have p: "pairs (JoinMarketTx example_tx example_pairs)
      = [([7 / 10, 1 / 2], [1, 1997 / 10000]), ([3 / 2], [1, 5001 / 10000]),
         ([5 / 2], [1, 15001 / 10000])]"
    by (simp add: JoinMarketTx_def example_pairs_def)
  from one_taker_group [OF run] p obtain taker makers
    where a: "pairs (JoinMarketTx example_tx example_pairs) = taker # makers"
      "fee_paid_to_pair taker < 0"
      "filter (\<lambda>p. fee_paid_to_pair p < 0) (pairs (JoinMarketTx example_tx example_pairs)) = [taker]"
      "taker_value_pair (JoinMarketTx example_tx example_pairs) = Inr taker"
      "maker_value_pairs (JoinMarketTx example_tx example_pairs) = makers"
    by auto
  from a(1) p have "taker = ([7 / 10, 1 / 2], [1, 1997 / 10000])"
    "makers = [([3 / 2], [1, 5001 / 10000]), ([5 / 2], [1, 15001 / 10000])]"
    by simp_all
  with a(2,3,4,5) run show ?thesis by simp
qed


section \<open>Failures of the pairing algorithm, on concrete lists\<close>

text \<open>
  The claim C6 as stated fails: on inputs that sum to less than the outputs the assertion
  \<open>txfee >= 0\<close> fails, and \<open>AssertionError\<close> is not \<open>Unpairable\<close>.
\<close>

theorem assertion_error_propagates:
  "pair_up_inout_values argsort_stable [1] [2, 2, 2, 1 / 2, 1 / 2] None = Inl AssertionError"
proof -
  have "get_value_mixed_from_values [1] [2, 2, 2, 1 / 2, 1 / 2] = Inr (Some (2, 3))"
    by code_simp
  then show ?thesis
    by (simp add: pair_up_inout_values_def pair_up_inout_values'_def Let_def)
qed

theorem pairing_failures_witness:
  "pair_up_inout_values argsort_stable [] [] None = Inl IndexError
   \<and> pair_up_inout_values argsort_stable [10] [1, 1, 1, 1] None = Inl AssertionError
   \<and> (pair_up_inout_values argsort_stable [2] [1] (Some 1) = Inl DivisionByZero
      \<or> pair_up_inout_values argsort_stable [2] [1] (Some 1) = Inl InvalidOperation)
   \<and> ((\<exists>ps. pair_up_inout_values argsort_stable example_in_values example_out_values None = Inr ps)
      \<or> pair_up_inout_values argsort_stable example_in_values example_out_values None
          = Inl (Unpairable Taker_fees_dont_add_up)
      \<or> (\<exists>cv. pair_up_inout_values argsort_stable example_in_values example_out_values None
          = Inl (Unpairable (Unpairable_change_values cv))))"
proof -
  have c: "\<forall>d. argsort_contract argsort_stable d"
    by (simp add: argsort_stable_contract)
  have m2: "get_value_mixed_from_values [10] [1, 1, 1, 1] = Inr (Some (1, 4))"
    by code_simp
  have 1: "pair_up_inout_values argsort_stable [] [] None = Inl IndexError"
    using pairing_failures [where argsort = argsort_stable and in_values = "[]" and out_values = "[]" and vmo = None, OF c] by simp
  have 2: "pair_up_inout_values argsort_stable [10] [1, 1, 1, 1] None = Inl AssertionError"
    using pairing_failures [where argsort = argsort_stable and in_values = "[10]" and out_values = "[1, 1, 1, 1]" and vmo = None, OF c] by (simp add: m2)
  have 3: "pair_up_inout_values argsort_stable [2] [1] (Some 1) = Inl DivisionByZero
      \<or> pair_up_inout_values argsort_stable [2] [1] (Some 1) = Inl InvalidOperation"
    using pairing_failures [where argsort = argsort_stable and in_values = "[2]" and out_values = "[1]" and vmo = "Some 1", OF c] by simp
  have n: "count_list example_out_values 1 = 3"
    "length (filter (\<lambda>x. x \<noteq> 1) example_out_values) = 3"
    "\<not> sum_list example_in_values < sum_list example_out_values"
    "example_out_values \<noteq> []"
    by (simp_all add: example_in_values_def example_out_values_def)
  have 4: "(\<exists>ps. pair_up_inout_values argsort_stable example_in_values example_out_values None = Inr ps)
      \<or> pair_up_inout_values argsort_stable example_in_values example_out_values None
          = Inl (Unpairable Taker_fees_dont_add_up)
      \<or> (\<exists>cv. pair_up_inout_values argsort_stable example_in_values example_out_values None
          = Inl (Unpairable (Unpairable_change_values cv)))"
    using pairing_failures [where argsort = argsort_stable and in_values = example_in_values and out_values = example_out_values and vmo = None, OF c]
    by (simp add: example_mix n)
  from 1 2 3 4 show ?thesis by blast
qed

section \<open>The order of the candidates of the example\<close>

text \<open>
  The claim C7 as stated fails: with the bucket sizes 1 and 2 and the eleven tolerances, the
  candidate at position 4 has bucket size 2 and tolerance index 0, of cost
  \<open>2\<^sup>2 + 0.1 * 0\<^sup>2 = 4\<close>, and comes before the candidate at position 7, of bucket size 1 and
  tolerance index 4, of cost \<open>1\<^sup>2 + 0.1 * 4\<^sup>2 = 2.6\<close>.
\<close>

theorem candidates_not_in_spec_cost_order:
  "gen_bucket_size_dist_pairs argsort_stable [1, 2] dists ! 4 = (2, dists ! 0)
   \<and> gen_bucket_size_dist_pairs argsort_stable [1, 2] dists ! 7 = (1, dists ! 4)
   \<and> gen_idx_pairs argsort_stable 2 11 ! 4 = (1, 0)
   \<and> gen_idx_pairs argsort_stable 2 11 ! 7 = (0, 4)
   \<and> spec_cost 2 0 = 4 \<and> spec_cost 1 4 = 13 / 5"
proof -
  have "gen_bucket_size_dist_pairs argsort_stable [1, 2] dists ! 4 = (2, dists ! 0)"
    "gen_bucket_size_dist_pairs argsort_stable [1, 2] dists ! 7 = (1, dists ! 4)"
    unfolding example_gen_cands
    by (simp_all add: example_cands_def example_idx_pairs_def dists_eq)
  moreover have "gen_idx_pairs argsort_stable 2 11 ! 4 = (1, 0)"
    "gen_idx_pairs argsort_stable 2 11 ! 7 = (0, 4)"
    unfolding example_gen_idx_pairs example_idx_pairs_def by simp_all
  moreover have "spec_cost 2 0 = 4" "spec_cost 1 4 = 13 / 5"
    by (simp_all add: spec_cost_def)
  ultimately show ?thesis by blast
qed

theorem candidates_in_penalty_order_witness:
  "argsort_contract argsort_stable (penalty_matrix 2 (length dists))
   \<and> gen_bucket_size_dist_pairs argsort_stable (map nat [1 .. int 2]) dists
       = map (\<lambda>(i, j). (i + 1, dists ! j)) example_idx_pairs
   \<and> sorted (map (\<lambda>(i, j). penalty i j) example_idx_pairs)
   \<and> distinct example_idx_pairs
   \<and> set example_idx_pairs = {0..<2} \<times> {0..<11}"
proof -
  have c: "argsort_contract argsort_stable (penalty_matrix 2 (length dists))"
    by (rule argsort_stable_contract)
  from candidates_in_penalty_order [OF c] c show ?thesis
    unfolding length_dists example_gen_idx_pairs by blast
qed

section \<open>Pass 1 on the example\<close>

lemma example_jmtx_vin_values:
  "vin_values example_chain (JoinMarketTx example_tx example_pairs) = example_in_values"
  by code_simp

theorem maker_inputs_found_witness:
  "pair_up_inout_values argsort_stable
       (vin_values example_chain (JoinMarketTx example_tx example_pairs)) example_out_values None
     = Inr (pairs (JoinMarketTx example_tx example_pairs))
   \<and> mset (concat (map fst (maker_value_pairs (JoinMarketTx example_tx example_pairs))))
       \<subseteq># mset (vin_values example_chain (JoinMarketTx example_tx example_pairs))
   \<and> extract_maker_addresses_from_tx example_chain (JoinMarketTx example_tx example_pairs)
       \<noteq> Inl ValueError"
proof -
  have run: "pair_up_inout_values argsort_stable
       (vin_values example_chain (JoinMarketTx example_tx example_pairs)) example_out_values None
     = Inr (pairs (JoinMarketTx example_tx example_pairs))"
    by (simp add: example_jmtx_vin_values example_run example_pairs_of)
  from maker_inputs_found [OF run] run show ?thesis by blast
qed


section \<open>The unmix level on the example\<close>

lemma example_possible_takers:
  "length (filter (\<lambda>vo. vout_value vo = 1
                    \<and> set [example_address 10] \<inter> set (get_vout_addresses vo) = {})
             (vout example_tx)) = 2"
  by code_simp

theorem unmix_level_of_marked_tx_witness:
  "to_joinmarket_tx argsort_stable example_chain example_tx
     = Inr (JoinMarketTx example_tx example_pairs)
   \<and> num_parties (UnmixedJoinMarketTx (JoinMarketTx example_tx example_pairs)
                    [example_address 10]) = 3
   \<and> value_mixed (UnmixedJoinMarketTx (JoinMarketTx example_tx example_pairs)
                    [example_address 10]) = Inr 1
   \<and> unmix_level (UnmixedJoinMarketTx (JoinMarketTx example_tx example_pairs)
                    [example_address 10]) = Inr (Some (fl (1 / 2)))
   \<and> 0 \<le> fl (1 / 2) \<and> fl (1 / 2) \<le> 1"
proof -
  let ?J = "UnmixedJoinMarketTx (JoinMarketTx example_tx example_pairs) [example_address 10]"
  from unmix_level_of_marked_tx [OF example_jmtx, of "[example_address 10]"]
  obtain v U where vm: "value_mixed ?J = Inr v"
    and gv: "get_value_mixed example_chain example_tx = Inr (Some (v, num_parties ?J))"
    and ma: "maker_addresses ?J = set [example_address 10]"
    and U: "U = length (filter (\<lambda>vo. vout_value vo = v
                  \<and> maker_addresses ?J \<inter> set (get_vout_addresses vo) = {}) (vout example_tx))"
    and ul: "0 < U \<longrightarrow>
                unmix_level ?J = Inr (Some (fl (of_nat (num_parties ?J - U) / of_nat (num_parties ?J - 1))))
                \<and> 0 \<le> fl (of_nat (num_parties ?J - U) / of_nat (num_parties ?J - 1))
                \<and> fl (of_nat (num_parties ?J - U) / of_nat (num_parties ?J - 1)) \<le> 1"
    by blast
  have "get_value_mixed example_chain example_tx = Inr (Some (1, 3))"
    by (simp add: get_value_mixed_def example_vin_values example_vout_values example_mix)
  with gv have v: "v = 1" and P: "num_parties ?J = 3" by simp_all
  have U2: "U = 2" unfolding U v ma by (rule example_possible_takers)
  from ul vm show ?thesis
    unfolding U2 P v using example_jmtx by simp
qed

end
